theory Spec2Isabelle
  imports Main "HOL-Library.Word"
begin

section \<open>The RPC utilities of torch/csrc/distributed/rpc/utils.h\<close>

text \<open>
  The header declares the wire codec, the payload nester and the message router, whose
  bodies live in other files, and defines one class in full: \<open>LazyStreamContext\<close>, the
  per-call map from device index to reserved stream. The first part of this theory embeds
  that class as it is written. The second part models the declared functions from the
  specification's description of them.
\<close>

subsection \<open>Devices, streams and tensors\<close>

text \<open>
  Modelled from the spec: \<open>c10::DeviceType\<close>, an enumeration declared in
  c10/core/DeviceType.h, which is not among the sources. The class below only passes its
  values on. The specification speaks of the host and of accelerator devices; the members
  here are the host, the CUDA accelerator and a numbered rest.
\<close>

datatype DeviceType = CPU | CUDA | OtherDevice nat

text \<open>
  Modelled from the spec: \<open>c10::DeviceIndex\<close> (c10/core/Device.h), a signed machine
  integer that the class uses as a map key and never computes with; the host has index -1.
\<close>

type_synonym DeviceIndex = int

text \<open>
  Modelled from the spec: \<open>c10::Device\<close> (c10/core/Device.h), the "device placement" of a
  tensor, read by the class through \<open>type()\<close> and \<open>index()\<close>.
\<close>

record Device =
  type :: DeviceType
  index :: DeviceIndex

text \<open>
  Modelled from the spec: \<open>c10::Stream\<close> (c10/core/Stream.h), the handle of a device
  stream: a device and a stream id. Two streams are the same handle exactly when both
  agree. The class reads \<open>device_type()\<close>.
\<close>

record Stream =
  device_type :: DeviceType
  device_index :: DeviceIndex
  stream_id :: int

type_synonym byte = "8 word"

text \<open>
  Modelled from the spec: the element types of a tensor (\<open>c10::ScalarType\<close>, declared
  outside the sources), under the names of the constants \<open>at::kByte\<close>, \<open>at::kInt\<close> and so
  on.
\<close>

datatype ScalarType = kByte | kChar | kShort | kInt | kLong | kHalf | kFloat | kDouble | kBool

text \<open>Modelled from the spec: the size in bytes of an element of each type.\<close>

fun element_size :: "ScalarType \<Rightarrow> nat" where
  "element_size kByte = 1"
| "element_size kChar = 1"
| "element_size kShort = 2"
| "element_size kInt = 4"
| "element_size kLong = 8"
| "element_size kHalf = 2"
| "element_size kFloat = 4"
| "element_size kDouble = 8"
| "element_size kBool = 1"

text \<open>
  Modelled from the spec: \<open>at::Tensor\<close>, of the tensor library. Section 3 and the glossary:
  a "logical array value plus identity of its backing storage buffer and a device
  placement", with shape and element type. The fields are where the tensor lives, its
  shape, how the shape is laid over the backing storage (strides and offset, in
  elements), its element type and the bytes of the backing storage. A view into a larger
  storage is a tensor whose storage holds more bytes than its elements occupy. The class
  below reads the device only.
\<close>

record Tensor =
  device :: Device
  sizes :: "nat list"
  strides :: "nat list"
  storage_offset :: nat
  dtype :: ScalarType
  storage :: "byte list"

subsection \<open>LazyStreamContext\<close>

text \<open>
  The class talks to three collaborators: the injected stream creator, the injected
  current-stream provider, and \<open>c10::Event\<close>. Calls that act on the outside world are
  recorded in a trace, oldest first: every invocation of the stream creator, and every
  \<open>record\<close> and \<open>block\<close> of an event. The collaborators are taken to return: the only
  exception in the model is the one the class itself throws.
\<close>

text \<open>
  Modelled from the spec: \<open>c10::Event\<close> (c10/core/Event.h), the glossary's
  synchronization event, "a marker recorded on one stream that another stream can wait
  on". It is constructed with a device type. An event is a local object of one loop
  iteration; the trace tells the events apart by a number, the place its record takes in
  the trace.
\<close>

record Event =
  event_id :: nat
  event_device_type :: DeviceType

datatype Action =
    StreamCreatorCall DeviceType DeviceIndex
  | EventRecord Event Stream
  | EventBlock Event Stream

text \<open>
  \<open>stream_factory_t\<close> is a \<open>std::function\<close> from device type and index to an optional
  stream. The stream creator allocates, so its answer may depend on what was called
  before (a pool hands its streams out in turn): it receives the trace so far. The
  current-stream provider reports the caller's ambient stream, which nothing in this
  class changes: it is a function of its arguments.
\<close>

type_synonym stream_creator_t = "Action list \<Rightarrow> DeviceType \<Rightarrow> DeviceIndex \<Rightarrow> Stream option"
type_synonym stream_provider_t = "DeviceType \<Rightarrow> DeviceIndex \<Rightarrow> Stream option"

text \<open>
  The members, named without the trailing underscore of the source. \<open>streams_\<close> is a
  \<open>std::unordered_map\<close> from device index to stream: a map, with at most one stream per
  index and no order among its entries.
\<close>

record LazyStreamContext =
  streams :: "DeviceIndex \<rightharpoonup> Stream"
  streamCreator :: stream_creator_t
  currentStreamProvider :: stream_provider_t

text \<open>
  The order in which a range-for loop visits a \<open>std::unordered_map\<close> is unspecified: it
  is whatever the hash table of the standard library makes it. The methods that loop
  over \<open>streams_\<close> therefore take the order as a parameter, a function that lists the
  entries of a map in the order of the visit. \<open>iterates\<close> says what C++ does guarantee of
  a visit: every entry of the map is met, and met once.
\<close>

type_synonym iteration_t = "(DeviceIndex \<rightharpoonup> Stream) \<Rightarrow> (DeviceIndex \<times> Stream) list"

definition iterates :: "iteration_t \<Rightarrow> (DeviceIndex \<rightharpoonup> Stream) \<Rightarrow> bool" where
  "iterates iteration m = (distinct (map fst (iteration m)) \<and> map_of (iteration m) = m)"

text \<open>
  The exceptions: \<open>std::runtime_error\<close> with its message, which \<open>getStream\<close> throws, and
  the FormatError of the specification's codec.
\<close>

datatype error = runtime_error string | FormatError

text \<open>The constructor stores the two functions and starts with an empty map.\<close>

definition createLazyStreamContext :: "stream_creator_t \<Rightarrow> stream_provider_t \<Rightarrow> LazyStreamContext" where
  "createLazyStreamContext creator provider =
     \<lparr>streams = Map.empty, streamCreator = creator, currentStreamProvider = provider\<rparr>"

text \<open>
  \<open>getStream\<close> (lines 139 to 156). It returns the result or the exception thrown, the
  context and the trace after the call. On a miss the creator is called; a stream is
  stored under the index and returned, and no stream throws.
\<close>

definition getStream ::
  "LazyStreamContext \<Rightarrow> DeviceType \<Rightarrow> DeviceIndex \<Rightarrow> Action list \<Rightarrow>
     (error + Stream option) \<times> LazyStreamContext \<times> Action list" where
  "getStream ctx dev_type idx tr =
     (case streams ctx idx of
        None \<Rightarrow>
          (let stream = streamCreator ctx tr dev_type idx;
               tr' = tr @ [StreamCreatorCall dev_type idx]
           in case stream of
                Some s \<Rightarrow> (Inr stream, ctx\<lparr>streams := (streams ctx)(idx \<mapsto> s)\<rparr>, tr')
              | None \<Rightarrow> (Inl (runtime_error ''Only CUDA streams are supported''), ctx, tr'))
      | Some s \<Rightarrow> (Inr (Some s), ctx, tr))"

text \<open>The first loop of \<open>waitForCurrentStreams\<close> (lines 111 to 113).\<close>

fun reserveStreams ::
  "LazyStreamContext \<Rightarrow> Tensor list \<Rightarrow> Action list \<Rightarrow>
     (error + unit) \<times> LazyStreamContext \<times> Action list" where
  "reserveStreams ctx [] tr = (Inr (), ctx, tr)"
| "reserveStreams ctx (tensor # tensors) tr =
     (case getStream ctx (type (device tensor)) (index (device tensor)) tr of
        (Inl e, ctx', tr') \<Rightarrow> (Inl e, ctx', tr')
      | (Inr _, ctx', tr') \<Rightarrow> reserveStreams ctx' tensors tr')"

text \<open>
  The body of the second loop (lines 116 to 123), run over the entries in the order in
  which the loop visits them. The event of an iteration is numbered by the length of the
  trace at its construction.
\<close>

fun syncStreams ::
  "stream_provider_t \<Rightarrow> (DeviceIndex \<times> Stream) list \<Rightarrow> Action list \<Rightarrow> Action list" where
  "syncStreams provider [] tr = tr"
| "syncStreams provider (entry # entries) tr =
     (case provider (device_type (snd entry)) (fst entry) of
        Some current_stream \<Rightarrow>
          (let event = \<lparr>event_id = length tr, event_device_type = device_type (snd entry)\<rparr>
           in syncStreams provider entries
                (tr @ [EventRecord event current_stream, EventBlock event (snd entry)]))
      | None \<Rightarrow> syncStreams provider entries tr)"

text \<open>
  \<open>waitForCurrentStreams\<close> (lines 110 to 125): the first loop, then the second over
  \<open>streams_\<close> in the order of the visit.
\<close>

definition waitForCurrentStreams ::
  "iteration_t \<Rightarrow> LazyStreamContext \<Rightarrow> Tensor list \<Rightarrow> Action list \<Rightarrow>
     (error + unit) \<times> LazyStreamContext \<times> Action list" where
  "waitForCurrentStreams iteration ctx tensors tr =
     (case reserveStreams ctx tensors tr of
        (Inl e, ctx', tr') \<Rightarrow> (Inl e, ctx', tr')
      | (Inr _, ctx', tr') \<Rightarrow>
          (Inr (), ctx',
           syncStreams (currentStreamProvider ctx') (iteration (streams ctx')) tr'))"

text \<open>
  \<open>getReservedStreams\<close> (lines 128 to 135) pushes the stream of every entry in the order
  of the visit.
\<close>

definition getReservedStreams :: "iteration_t \<Rightarrow> LazyStreamContext \<Rightarrow> Stream list" where
  "getReservedStreams iteration ctx = map snd (iteration (streams ctx))"

text \<open>
  \<open>devices\<close> (lines 158 to 164) inserts the key of every entry into a \<open>std::set\<close>.
\<close>

definition devices :: "iteration_t \<Rightarrow> LazyStreamContext \<Rightarrow> DeviceIndex set" where
  "devices iteration ctx = set (map fst (iteration (streams ctx)))"

text \<open>
  A caller's use of a context over time: any sequence of calls of its public methods.
  An exception ends the call that threw, not the context, which keeps what it had cached.
\<close>

datatype Call =
    GetStream DeviceType DeviceIndex
  | WaitForCurrentStreams "Tensor list"
  | GetReservedStreams
  | Devices

fun call ::
  "iteration_t \<Rightarrow> Call \<Rightarrow> LazyStreamContext \<times> Action list \<Rightarrow> LazyStreamContext \<times> Action list" where
  "call iteration (GetStream t i) (ctx, tr) = snd (getStream ctx t i tr)"
| "call iteration (WaitForCurrentStreams tensors) (ctx, tr) =
     snd (waitForCurrentStreams iteration ctx tensors tr)"
| "call iteration GetReservedStreams (ctx, tr) = (ctx, tr)"
| "call iteration Devices (ctx, tr) = (ctx, tr)"

definition calls ::
  "iteration_t \<Rightarrow> Call list \<Rightarrow> LazyStreamContext \<times> Action list \<Rightarrow>
     LazyStreamContext \<times> Action list" where
  "calls iteration cs st = fold (call iteration) cs st"

subsection \<open>The declared functions, from the specification\<close>

text \<open>
  The header declares \<open>writeWrappedPayload\<close>, \<open>readWrappedPayload\<close>, \<open>cloneSparseTensors\<close>,
  \<open>wireSerialize\<close> and \<open>wireDeserialize\<close>; their bodies are in utils.cpp, which is not among
  the sources. What follows is written from the specification's sections 3, 4.1 to 4.3 and
  6. Byte buffers (\<open>std::vector<char>\<close>, or a pointer with a size) are byte lists.
\<close>

text \<open>
  Modelled from the spec: the fixed-width length field, whose encoder is in
  torch/csrc/utils/byte_order.h. Section 3 gives the nested-payload frame an 8-byte
  big-endian length; the same field is used for the two header lengths of the wire buffer,
  whose width the specification leaves open. \<open>be_encode w n\<close> is \<open>n\<close> in \<open>w\<close> bytes,
  most significant first, the higher bits dropped.
\<close>

fun be_encode :: "nat \<Rightarrow> nat \<Rightarrow> byte list" where
  "be_encode 0 n = []"
| "be_encode (Suc w) n = be_encode w (n div 256) @ [of_nat (n mod 256)]"

text \<open>Modelled from the spec: reading a big-endian field back (byte_order.h).\<close>

definition be_decode :: "byte list \<Rightarrow> nat" where
  "be_decode bs = foldl (\<lambda>acc b. acc * 256 + unat b) 0 bs"

text \<open>
  Modelled from the spec: \<open>writeWrappedPayload\<close> (body in utils.cpp). Section 4.3: it
  "appends a wrapped payload's bytes to an original payload's bytes, then appends a
  fixed-width trailing length field equal to the wrapped payload's byte length". The
  source mutates the original payload in place; the model returns the new buffer.
\<close>

definition writeWrappedPayload :: "byte list \<Rightarrow> byte list \<Rightarrow> byte list" where
  "writeWrappedPayload originalPayload additionalPayload =
     originalPayload @ additionalPayload @ be_encode 8 (length additionalPayload)"

text \<open>
  Modelled from the spec: \<open>readWrappedPayload\<close> (body in utils.cpp). Section 4.3: it "reads
  the trailing fixed-width length field, uses it to locate and extract the wrapped
  segment, restores the original payload to just the leading segment, and returns the
  wrapped segment decoded as a sequence of values", and fails with a FormatError "if the
  trailing length exceeds the buffer's remaining size". A buffer too short to hold the
  field fails the same way. The decoder of the values is the unpickler, a collaborator,
  taken as the parameter \<open>unpickle\<close>. The message argument of the source serves the error
  text only and is left out. The result is the restored payload and the values.
\<close>

definition readWrappedPayload ::
  "(byte list \<Rightarrow> error + 'v) \<Rightarrow> byte list \<Rightarrow> error + (byte list \<times> 'v)" where
  "readWrappedPayload unpickle payload =
     (if length payload < 8 then Inl FormatError
      else
        let indexToRead = length payload - 8;
            additionalPayloadSize = be_decode (drop indexToRead payload);
            rest = take indexToRead payload
        in if additionalPayloadSize > length rest then Inl FormatError
           else
             (case unpickle (drop (length rest - additionalPayloadSize) rest) of
                Inl e \<Rightarrow> Inl e
              | Inr values \<Rightarrow> Inr (take (length rest - additionalPayloadSize) rest, values)))"

text \<open>
  Modelled from the spec: the tensor library's \<open>numel\<close>, the number of elements of a
  tensor (the product of its sizes).
\<close>

definition numel :: "Tensor \<Rightarrow> nat" where
  "numel t = prod_list (sizes t)"

text \<open>
  Modelled from the spec: the bytes a tensor's elements occupy, its "reachable payload"
  (section 4.1).
\<close>

definition nbytes :: "Tensor \<Rightarrow> nat" where
  "nbytes t = element_size (dtype t) * numel t"

text \<open>
  Modelled from the spec: the positions in the storage, in elements, of a tensor's
  elements in row-major order, from the list of its (size, stride) pairs and its offset.
  This is the tensor library's indexing, which the specification takes for granted.
\<close>

fun element_offsets :: "(nat \<times> nat) list \<Rightarrow> nat \<Rightarrow> nat list" where
  "element_offsets [] base = [base]"
| "element_offsets ((n, stride) # dims) base =
     concat (map (\<lambda>i. element_offsets dims (base + i * stride)) [0..<n])"

text \<open>Modelled from the spec: the bytes of the element at a position of the storage.\<close>

definition element_bytes :: "Tensor \<Rightarrow> nat \<Rightarrow> byte list" where
  "element_bytes t off =
     take (element_size (dtype t)) (drop (off * element_size (dtype t)) (storage t))"

text \<open>
  Modelled from the spec: the value of a tensor, "the reachable data": the bytes of its
  elements in row-major order.
\<close>

definition contents :: "Tensor \<Rightarrow> byte list" where
  "contents t =
     concat (map (element_bytes t)
       (element_offsets (zip (sizes t) (strides t)) (storage_offset t)))"

text \<open>Modelled from the spec: the strides of a tightly packed tensor of a given shape.\<close>

fun contiguous_strides :: "nat list \<Rightarrow> nat list" where
  "contiguous_strides [] = []"
| "contiguous_strides (n # ns) = prod_list ns # contiguous_strides ns"

text \<open>
  Modelled from the spec: the tensor library's \<open>clone\<close>, in the glossary's words "copy a
  tensor's reachable data into new, tightly packed storage, discarding unused parts of the
  original backing buffer".
\<close>

definition clone :: "Tensor \<Rightarrow> Tensor" where
  "clone t = t\<lparr>strides := contiguous_strides (sizes t), storage_offset := 0,
               storage := contents t\<rparr>"

text \<open>
  Modelled from the spec: the policy of \<open>cloneSparseTensors\<close> (body in utils.cpp).
  Section 4.1: densify "when doing so would save at least half of the bytes that would
  otherwise be transmitted for that tensor AND the absolute byte savings exceed a fixed
  minimum threshold"; the header says "clones tensors if we'd save at least half the
  data, and over a minimum hurdle". The threshold is a constant of utils.cpp, taken as the
  parameter \<open>kMinRecopyBytes\<close>.
\<close>

definition worthRecopying :: "nat \<Rightarrow> Tensor \<Rightarrow> bool" where
  "worthRecopying kMinRecopyBytes t =
     (2 * nbytes t \<le> length (storage t) \<and>
      length (storage t) - nbytes t > kMinRecopyBytes)"

text \<open>
  Modelled from the spec: \<open>cloneSparseTensors\<close> (body in utils.cpp): each tensor worth
  recopying is replaced by its clone, the others are passed through, in order.
\<close>

definition cloneSparseTensors :: "nat \<Rightarrow> Tensor list \<Rightarrow> Tensor list" where
  "cloneSparseTensors kMinRecopyBytes tensors =
     map (\<lambda>t. if worthRecopying kMinRecopyBytes t then clone t else t) tensors"

text \<open>
  Modelled from the spec: what the tensor library guarantees of a tensor it hands out:
  one stride per dimension, and every element inside the storage.
\<close>

definition in_bounds :: "Tensor \<Rightarrow> bool" where
  "in_bounds t =
     (length (strides t) = length (sizes t) \<and>
      (\<forall>off \<in> set (element_offsets (zip (sizes t) (strides t)) (storage_offset t)).
         (off + 1) * element_size (dtype t) \<le> length (storage t)))"

text \<open>
  Modelled from the spec: a row of the metadata table of the wire buffer. Section 4.2
  lists "its shape, element type, and byte length of its storage slice"; the row also
  carries the rest of what describes the tensor apart from its bytes (placement, strides,
  offset), without which a decoder could not give back a tensor that was passed through
  undensified.
\<close>

record TensorMeta =
  meta_device :: Device
  meta_sizes :: "nat list"
  meta_strides :: "nat list"
  meta_storage_offset :: nat
  meta_dtype :: ScalarType
  meta_nbytes :: nat

text \<open>Modelled from the spec: the table row of a tensor (part of \<open>wireSerialize\<close>).\<close>

definition describe :: "Tensor \<Rightarrow> TensorMeta" where
  "describe t =
     \<lparr>meta_device = device t, meta_sizes = sizes t, meta_strides = strides t,
      meta_storage_offset = storage_offset t, meta_dtype = dtype t,
      meta_nbytes = length (storage t)\<rparr>"

text \<open>
  Modelled from the spec: the tensor of a table row and its storage bytes (part of
  \<open>wireDeserialize\<close>).
\<close>

definition materialize :: "TensorMeta \<Rightarrow> byte list \<Rightarrow> Tensor" where
  "materialize m bytes =
     \<lparr>device = meta_device m, sizes = meta_sizes m, strides = meta_strides m,
      storage_offset = meta_storage_offset m, dtype = meta_dtype m, storage = bytes\<rparr>"

text \<open>
  Modelled from the spec: the loop of \<open>wireDeserialize\<close> that cuts the storage bytes, which
  lie "back-to-back in table order", into one slice per row.
\<close>

fun readTensors :: "TensorMeta list \<Rightarrow> byte list \<Rightarrow> Tensor list" where
  "readTensors [] rest = []"
| "readTensors (m # ms) rest =
     materialize m (take (meta_nbytes m) rest) # readTensors ms (drop (meta_nbytes m) rest)"

text \<open>
  Modelled from the spec: \<open>wireSerialize\<close> (body in utils.cpp). Section 6 fixes the buffer:
  payload length, metadata length, payload bytes, serialized metadata table, tensor
  storage bytes in table order. The encode path goes through the framing optimizer
  (section 2), so the tensors framed are the densified ones. The encoder of the table is
  left open by section 4.2 ("any compact schema-based encoder is acceptable"); it is the
  parameter \<open>pickle\<close>.
\<close>

definition wireSerialize ::
  "(TensorMeta list \<Rightarrow> byte list) \<Rightarrow> nat \<Rightarrow> byte list \<Rightarrow> Tensor list \<Rightarrow> byte list" where
  "wireSerialize pickle kMinRecopyBytes payload tensors =
     (let dense = cloneSparseTensors kMinRecopyBytes tensors;
          meta = pickle (map describe dense)
      in be_encode 8 (length payload) @ be_encode 8 (length meta) @
         payload @ meta @ concat (map storage dense))"

text \<open>
  Modelled from the spec: \<open>wireDeserialize\<close> (body in utils.cpp). The pointer and size of
  the source are one byte list. Section 4.2: it "fails with a FormatError if the header
  lengths are inconsistent with the buffer's actual length, or if the metadata table
  references more storage bytes than remain in the buffer"; section 7 adds truncated
  metadata, here a table the decoder \<open>unpickle\<close> rejects. Every slice is taken only after
  the check that it lies inside the buffer.
\<close>

definition wireDeserialize ::
  "(byte list \<Rightarrow> TensorMeta list option) \<Rightarrow> byte list \<Rightarrow> error + (byte list \<times> Tensor list)" where
  "wireDeserialize unpickle data =
     (if length data < 16 then Inl FormatError
      else
        let payload_len = be_decode (take 8 data);
            meta_len = be_decode (take 8 (drop 8 data))
        in if 16 + payload_len + meta_len > length data then Inl FormatError
           else
             (case unpickle (take meta_len (drop (16 + payload_len) data)) of
                None \<Rightarrow> Inl FormatError
              | Some table \<Rightarrow>
                  let rest = drop (16 + payload_len + meta_len) data
                  in if sum_list (map meta_nbytes table) > length rest then Inl FormatError
                     else Inr (take payload_len (drop 16 data), readTensors table rest)))"

text \<open>
  Modelled from the spec: one encoder of the metadata table of the kind section 4.2
  allows, to run the codec on concrete buffers. A table is a count and then, for each
  row, its fields as numbers with each list preceded by its length; every number is an
  8-byte big-endian field. The element types are numbered by their place in
  \<open>scalar_types\<close>, the device types by 0, 1 and 2 with an argument, and the device index
  is shifted by 128 to be non-negative.
\<close>

definition scalar_types :: "ScalarType list" where
  "scalar_types = [kByte, kChar, kShort, kInt, kLong, kHalf, kFloat, kDouble, kBool]"

text \<open>Modelled from the spec: the two numbers of a device type in that encoder.\<close>

fun device_type_code :: "DeviceType \<Rightarrow> nat list" where
  "device_type_code CPU = [0, 0]"
| "device_type_code CUDA = [1, 0]"
| "device_type_code (OtherDevice n) = [2, n]"

text \<open>Modelled from the spec: the numbers of one table row in that encoder.\<close>

definition entry_words :: "TensorMeta \<Rightarrow> nat list" where
  "entry_words m =
     device_type_code (type (meta_device m)) @
     [nat (index (meta_device m) + 128),
      length (takeWhile (\<lambda>d. d \<noteq> meta_dtype m) scalar_types),
      meta_storage_offset m, meta_nbytes m, length (meta_sizes m)] @ meta_sizes m @
     [length (meta_strides m)] @ meta_strides m"

text \<open>Modelled from the spec: that encoder of the metadata table.\<close>

definition pickleTable :: "TensorMeta list \<Rightarrow> byte list" where
  "pickleTable table =
     concat (map (be_encode 8) (length table # concat (map entry_words table)))"

text \<open>
  Modelled from the spec: the decoder of that encoder, first bytes to numbers (the first
  argument bounds the number of fields and is the length of the input), then numbers to
  rows. Input that is not an encoded table gives \<open>None\<close>.
\<close>

fun words_of :: "nat \<Rightarrow> byte list \<Rightarrow> nat list option" where
  "words_of 0 bs = (if bs = [] then Some [] else None)"
| "words_of (Suc fuel) bs =
     (if bs = [] then Some []
      else if length bs < 8 then None
      else map_option (\<lambda>ws. be_decode (take 8 bs) # ws) (words_of fuel (drop 8 bs)))"

text \<open>Modelled from the spec: one row from the numbers, and the numbers left over.\<close>

fun entry_of_words :: "nat list \<Rightarrow> (TensorMeta \<times> nat list) option" where
  "entry_of_words (tag # arg # idx # dt # off # nb # rank # ws) =
     (if tag > 2 \<or> dt \<ge> length scalar_types \<or> length ws < rank + 1 then None
      else
        let n_strides = ws ! rank; ws' = drop (rank + 1) ws
        in if length ws' < n_strides then None
           else Some
             (\<lparr>meta_device =
                 \<lparr>type = (if tag = 0 then CPU else if tag = 1 then CUDA else OtherDevice arg),
                  index = int idx - 128\<rparr>,
               meta_sizes = take rank ws, meta_strides = take n_strides ws',
               meta_storage_offset = off, meta_dtype = scalar_types ! dt, meta_nbytes = nb\<rparr>,
              drop n_strides ws'))"
| "entry_of_words _ = None"

text \<open>Modelled from the spec: the given number of rows from the numbers, nothing left over.\<close>

fun entries_of_words :: "nat \<Rightarrow> nat list \<Rightarrow> TensorMeta list option" where
  "entries_of_words 0 ws = (if ws = [] then Some [] else None)"
| "entries_of_words (Suc n) ws =
     (case entry_of_words ws of
        None \<Rightarrow> None
      | Some (m, ws') \<Rightarrow> map_option ((#) m) (entries_of_words n ws'))"

text \<open>Modelled from the spec: the decoder of the metadata table.\<close>

definition unpickleTable :: "byte list \<Rightarrow> TensorMeta list option" where
  "unpickleTable bs =
     (case words_of (length bs) bs of
        Some (count # ws) \<Rightarrow> entries_of_words count ws
      | _ \<Rightarrow> None)"


subsection \<open>Properties of LazyStreamContext\<close>

lemma getStream_hit:
  "streams ctx i = Some s \<Longrightarrow> getStream ctx t i tr = (Inr (Some s), ctx, tr)"
  by (simp add: getStream_def)

lemma getStream_miss_Some:
  "streams ctx i = None \<Longrightarrow> streamCreator ctx tr t i = Some s \<Longrightarrow>
   getStream ctx t i tr =
     (Inr (Some s), ctx\<lparr>streams := (streams ctx)(i \<mapsto> s)\<rparr>, tr @ [StreamCreatorCall t i])"
  by (simp add: getStream_def Let_def)

lemma getStream_miss_None:
  "streams ctx i = None \<Longrightarrow> streamCreator ctx tr t i = None \<Longrightarrow>
   getStream ctx t i tr =
     (Inl (runtime_error ''Only CUDA streams are supported''), ctx, tr @ [StreamCreatorCall t i])"
  by (simp add: getStream_def Let_def)

text \<open>
  Whatever a call of \<open>getStream\<close> does, it keeps the entries the map had, adds at most an
  entry for its own index, extends the trace by creator calls only, and leaves the two
  functions alone.
\<close>

lemma getStream_grows:
  assumes "getStream ctx t i tr = (r, ctx', tr')"
  shows "(\<forall>j s. streams ctx j = Some s \<longrightarrow> streams ctx' j = Some s) \<and>
         dom (streams ctx') \<subseteq> insert i (dom (streams ctx)) \<and>
         (\<exists>cs. tr' = tr @ cs \<and> (\<forall>a\<in>set cs. \<exists>d k. a = StreamCreatorCall d k)) \<and>
         streamCreator ctx' = streamCreator ctx \<and>
         currentStreamProvider ctx' = currentStreamProvider ctx"
proof (cases "streams ctx i")
  case None
  show ?thesis
  proof (cases "streamCreator ctx tr t i")
    case N: None
    from getStream_miss_None[OF None N] assms show ?thesis by auto
  next
    case (Some s)
    from getStream_miss_Some[OF None Some] assms None show ?thesis by auto
  qed
next
  case (Some s)
  from getStream_hit[OF Some] assms show ?thesis by auto
qed

lemma getStream_keeps:
  assumes "streams ctx j = Some s" and "getStream ctx t i tr = (r, ctx', tr')"
  shows "streams ctx' j = Some s"
  using getStream_grows[OF assms(2)] assms(1) by blast

lemma getStream_Inr_cached:
  assumes "getStream ctx t i tr = (Inr r, ctx', tr')"
  shows "\<exists>s. r = Some s \<and> streams ctx' i = Some s"
proof (cases "streams ctx i")
  case None
  show ?thesis
  proof (cases "streamCreator ctx tr t i")
    case N: None
    from getStream_miss_None[OF None N] assms show ?thesis by simp
  next
    case (Some s)
    from getStream_miss_Some[OF None Some] assms
    have "r = Some s" and "ctx' = ctx\<lparr>streams := (streams ctx)(i \<mapsto> s)\<rparr>" by simp_all
    then show ?thesis by simp
  qed
next
  case (Some s)
  from getStream_hit[OF Some] assms have "r = Some s" and "ctx' = ctx" by simp_all
  with Some show ?thesis by simp
qed


lemma getStream_returns:
  assumes "streams ctx i \<noteq> None \<or> streamCreator ctx tr t i \<noteq> None"
  shows "\<exists>r ctx' tr'. getStream ctx t i tr = (Inr r, ctx', tr')"
proof (cases "streams ctx i")
  case None
  with assms obtain s where "streamCreator ctx tr t i = Some s" by auto
  from getStream_miss_Some[OF None this] show ?thesis by blast
next
  case (Some s)
  from getStream_hit[OF Some] show ?thesis by blast
qed

lemma reserveStreams_grows:
  "reserveStreams ctx ts tr = (r, ctx', tr') \<Longrightarrow>
   (\<forall>j s. streams ctx j = Some s \<longrightarrow> streams ctx' j = Some s) \<and>
   dom (streams ctx') \<subseteq> dom (streams ctx) \<union> (\<lambda>t. index (device t)) ` set ts \<and>
   (\<exists>cs. tr' = tr @ cs \<and> (\<forall>a\<in>set cs. \<exists>d k. a = StreamCreatorCall d k)) \<and>
   streamCreator ctx' = streamCreator ctx \<and>
   currentStreamProvider ctx' = currentStreamProvider ctx"
proof (induction ts arbitrary: ctx tr)
  case Nil
  then show ?case by simp
next
  case (Cons a ts)
  obtain r1 c1 t1 where g: "getStream ctx (type (device a)) (index (device a)) tr = (r1, c1, t1)"
    by (metis prod_cases3)
  from getStream_grows[OF g] obtain cs1 where
    1: "\<forall>j s. streams ctx j = Some s \<longrightarrow> streams c1 j = Some s"
       "dom (streams c1) \<subseteq> insert (index (device a)) (dom (streams ctx))"
       "t1 = tr @ cs1" "\<forall>a\<in>set cs1. \<exists>d k. a = StreamCreatorCall d k"
       "streamCreator c1 = streamCreator ctx" "currentStreamProvider c1 = currentStreamProvider ctx"
    by blast
  show ?case
  proof (cases r1)
    case (Inl e)
    with Cons.prems g have e: "ctx' = c1" "tr' = t1" by simp_all
    have "dom (streams c1) \<subseteq> dom (streams ctx) \<union> (\<lambda>t. index (device t)) ` set (a # ts)"
      using 1(2) unfolding list.set image_insert by blast
    with 1 e show ?thesis by blast
  next
    case (Inr v)
    with Cons.prems g have "reserveStreams c1 ts t1 = (r, ctx', tr')" by simp
    from Cons.IH[OF this] obtain cs2 where
      2: "\<forall>j s. streams c1 j = Some s \<longrightarrow> streams ctx' j = Some s"
         "dom (streams ctx') \<subseteq> dom (streams c1) \<union> (\<lambda>t. index (device t)) ` set ts"
         "tr' = t1 @ cs2" "\<forall>a\<in>set cs2. \<exists>d k. a = StreamCreatorCall d k"
         "streamCreator ctx' = streamCreator c1" "currentStreamProvider ctx' = currentStreamProvider c1"
      by blast
    have k: "\<forall>j s. streams ctx j = Some s \<longrightarrow> streams ctx' j = Some s" using 1(1) 2(1) by blast
    have d: "dom (streams ctx') \<subseteq> dom (streams ctx) \<union> (\<lambda>t. index (device t)) ` set (a # ts)"
      using 1(2) 2(2) unfolding list.set image_insert by blast
    have t: "tr' = tr @ (cs1 @ cs2)" using 1(3) 2(3) by simp
    have c: "\<forall>a\<in>set (cs1 @ cs2). \<exists>d k. a = StreamCreatorCall d k" using 1(4) 2(4) by auto
    have f: "streamCreator ctx' = streamCreator ctx"
      "currentStreamProvider ctx' = currentStreamProvider ctx" using 1(5,6) 2(5,6) by simp_all
    from k d t c f show ?thesis by blast
  qed
qed




lemma waitForCurrentStreams_keeps:
  assumes "streams ctx j = Some s" and "waitForCurrentStreams it ctx ts tr = (r, ctx', tr')"
  shows "streams ctx' j = Some s"
proof -
  obtain r1 c1 t1 where g: "reserveStreams ctx ts tr = (r1, c1, t1)" by (metis prod_cases3)
  have "streams c1 j = Some s" using reserveStreams_grows[OF g] assms(1) by blast
  moreover have "ctx' = c1" using assms(2) g by (cases r1) (auto simp: waitForCurrentStreams_def)
  ultimately show ?thesis by simp
qed

lemma call_keeps:
  assumes "streams ctx j = Some s" and "call it c (ctx, tr) = (ctx', tr')"
  shows "streams ctx' j = Some s"
proof (cases c)
  case (GetStream t i)
  obtain r where "getStream ctx t i tr = (r, ctx', tr')" using assms(2) GetStream
    by (cases "getStream ctx t i tr") auto
  from getStream_keeps[OF assms(1) this] show ?thesis .
next
  case (WaitForCurrentStreams ts)
  obtain r where "waitForCurrentStreams it ctx ts tr = (r, ctx', tr')"
    using assms(2) WaitForCurrentStreams
    by (cases "waitForCurrentStreams it ctx ts tr") auto
  from waitForCurrentStreams_keeps[OF assms(1) this] show ?thesis .
next
  case GetReservedStreams
  with assms show ?thesis by simp
next
  case Devices
  with assms show ?thesis by simp
qed

lemma calls_keeps:
  "streams ctx j = Some s \<Longrightarrow> calls it cs (ctx, tr) = (ctx', tr') \<Longrightarrow>
   streams ctx' j = Some s"
proof (induction cs arbitrary: ctx tr)
  case Nil
  then show ?case by (simp add: calls_def)
next
  case (Cons c cs)
  obtain c1 t1 where g: "call it c (ctx, tr) = (c1, t1)" by (cases "call it c (ctx, tr)")
  have "calls it cs (c1, t1) = (ctx', tr')" using Cons.prems(2) g by (simp add: calls_def)
  from Cons.IH[OF call_keeps[OF Cons.prems(1) g] this] show ?case .
qed

text \<open>
  A stream that \<open>getStream\<close> has returned for an index stays the answer for that index:
  after any further calls, \<open>getStream\<close> for the index, under any device type, is a hit
  on that stream.
\<close>

lemma getStream_stays_cached:
  assumes "getStream ctx t i tr = (Inr r, ctx1, tr1)"
    and "calls it cs (ctx1, tr1) = (ctx2, tr2)"
  shows "\<exists>s. r = Some s \<and> streams ctx1 i = Some s \<and> streams ctx2 i = Some s \<and>
           getStream ctx2 t' i tr2 = (Inr (Some s), ctx2, tr2)"
proof -
  from getStream_Inr_cached[OF assms(1)] obtain s where
    r: "r = Some s" and c: "streams ctx1 i = Some s" by blast
  from calls_keeps[OF c assms(2)] have c2: "streams ctx2 i = Some s" .
  from getStream_hit[OF c2] r c c2 show ?thesis by simp
qed









text \<open>
  The two read-only methods, for a visit that meets every entry once: the devices are the
  indices of the map, and the reserved streams are its streams, one per index.
\<close>

lemma devices_getReservedStreams:
  assumes "iterates iteration (streams ctx)"
  shows "devices iteration ctx = dom (streams ctx) \<and>
         set (getReservedStreams iteration ctx) = ran (streams ctx) \<and>
         length (getReservedStreams iteration ctx) = card (dom (streams ctx))"
proof -
  let ?L = "iteration (streams ctx)"
  have d: "distinct (map fst ?L)" and m: "map_of ?L = streams ctx"
    using assms by (simp_all add: iterates_def)
  have "set (map fst ?L) = dom (map_of ?L)" by (simp add: dom_map_of_conv_image_fst)
  then have 1: "devices iteration ctx = dom (streams ctx)" by (simp add: devices_def m)
  have "ran (map_of ?L) = snd ` set ?L" by (rule ran_distinct[OF d])
  then have 2: "set (getReservedStreams iteration ctx) = ran (streams ctx)"
    by (simp add: getReservedStreams_def m)
  have "card (set (map fst ?L)) = length (map fst ?L)" by (rule distinct_card[OF d])
  then have 3: "length (getReservedStreams iteration ctx) = card (dom (streams ctx))"
    using 1 by (simp add: getReservedStreams_def devices_def)
  from 1 2 3 show ?thesis by simp
qed


text \<open>
  Claim C2, as the code has it. On a miss, a creator that returns no stream makes
  \<open>getStream\<close> throw the runtime error, whatever the device type, with the context
  unchanged and the creator call in the trace. That is the only way it throws, and a call
  that returns never returns the absent value.
\<close>

theorem getStream_no_stream_throws:
  "(streams ctx idx = None \<and> streamCreator ctx tr dev_type idx = None \<longrightarrow>
      getStream ctx dev_type idx tr =
        (Inl (runtime_error ''Only CUDA streams are supported''), ctx,
         tr @ [StreamCreatorCall dev_type idx])) \<and>
   ((\<exists>e. fst (getStream ctx dev_type idx tr) = Inl e) \<longrightarrow>
      streams ctx idx = None \<and> streamCreator ctx tr dev_type idx = None) \<and>
   fst (getStream ctx dev_type idx tr) \<noteq> Inr None"
proof (cases "streams ctx idx")
  case None
  show ?thesis
  proof (cases "streamCreator ctx tr dev_type idx")
    case N: None
    from getStream_miss_None[OF None N] None N show ?thesis by simp
  next
    case (Some s)
    from getStream_miss_Some[OF None Some] None Some show ?thesis by simp
  qed
next
  case (Some s)
  from getStream_hit[OF Some] Some show ?thesis by simp
qed

theorem getStream_no_stream_throws_witness:
  "getStream (createLazyStreamContext (\<lambda>tr t i. None) (\<lambda>t i. None)) CUDA 1 [] =
     (Inl (runtime_error ''Only CUDA streams are supported''),
      createLazyStreamContext (\<lambda>tr t i. None) (\<lambda>t i. None), [StreamCreatorCall CUDA 1])"
proof -
  let ?ctx = "createLazyStreamContext (\<lambda>tr t i. None) (\<lambda>t i. None)"
  have "streams ?ctx 1 = None \<and> streamCreator ?ctx [] CUDA 1 = None"
    by (simp add: createLazyStreamContext_def)
  with getStream_no_stream_throws[of ?ctx 1 "[]" CUDA] show ?thesis by simp
qed

text \<open>
  Claim C2 as stated fails: with a creator that serves CUDA only, \<open>getStream\<close> for a
  host tensor's device throws; it does not return the absent value.
\<close>

theorem getStream_host_counterexample:
  "fst (getStream
     (createLazyStreamContext
        (\<lambda>tr t i. if t = CUDA then Some \<lparr>device_type = CUDA, device_index = i, stream_id = 0\<rparr>
                   else None)
        (\<lambda>t i. None))
     CPU (- 1) []) = Inl (runtime_error ''Only CUDA streams are supported'') \<and>
   fst (getStream
     (createLazyStreamContext
        (\<lambda>tr t i. if t = CUDA then Some \<lparr>device_type = CUDA, device_index = i, stream_id = 0\<rparr>
                   else None)
        (\<lambda>t i. None))
     CPU (- 1) []) \<noteq> Inr None"
  by (simp add: getStream_def createLazyStreamContext_def Let_def)

lemma getStream_index_faithful:
  assumes "getStream ctx t i tr = (r, ctx', tr')"
    and "\<forall>h d k x. streamCreator ctx h d k = Some x \<longrightarrow> device_index x = k"
    and "\<forall>k x. streams ctx k = Some x \<longrightarrow> device_index x = k"
  shows "\<forall>k x. streams ctx' k = Some x \<longrightarrow> device_index x = k"
proof (cases "streams ctx i")
  case None
  show ?thesis
  proof (cases "streamCreator ctx tr t i")
    case N: None
    from getStream_miss_None[OF None N] assms show ?thesis by simp
  next
    case (Some s)
    with assms(2) have "device_index s = i" by blast
    with getStream_miss_Some[OF None Some] assms(1,3) show ?thesis by auto
  qed
next
  case (Some s)
  from getStream_hit[OF Some] assms show ?thesis by simp
qed

lemma reserveStreams_index_faithful:
  "reserveStreams ctx ts tr = (r, ctx', tr') \<Longrightarrow>
   \<forall>h d k x. streamCreator ctx h d k = Some x \<longrightarrow> device_index x = k \<Longrightarrow>
   \<forall>k x. streams ctx k = Some x \<longrightarrow> device_index x = k \<Longrightarrow>
   \<forall>k x. streams ctx' k = Some x \<longrightarrow> device_index x = k"
proof (induction ts arbitrary: ctx tr)
  case Nil
  then show ?case by simp
next
  case (Cons a ts)
  obtain r1 c1 t1 where g: "getStream ctx (type (device a)) (index (device a)) tr = (r1, c1, t1)"
    by (metis prod_cases3)
  have inv: "\<forall>k x. streams c1 k = Some x \<longrightarrow> device_index x = k"
    by (rule getStream_index_faithful[OF g Cons.prems(2,3)])
  have cr: "streamCreator c1 = streamCreator ctx" using getStream_grows[OF g] by simp
  show ?case
  proof (cases r1)
    case (Inl e)
    with Cons.prems(1) g inv show ?thesis by simp
  next
    case (Inr v)
    with Cons.prems(1) g have "reserveStreams c1 ts t1 = (r, ctx', tr')" by simp
    from Cons.IH[OF this] Cons.prems(2) inv cr show ?thesis by simp
  qed
qed

lemma call_index_faithful:
  assumes "call it c (ctx, tr) = (ctx', tr')"
    and "\<forall>h d k x. streamCreator ctx h d k = Some x \<longrightarrow> device_index x = k"
    and "\<forall>k x. streams ctx k = Some x \<longrightarrow> device_index x = k"
  shows "(\<forall>k x. streams ctx' k = Some x \<longrightarrow> device_index x = k) \<and>
         streamCreator ctx' = streamCreator ctx"
proof (cases c)
  case (GetStream t i)
  obtain r where g: "getStream ctx t i tr = (r, ctx', tr')" using assms(1) GetStream
    by (cases "getStream ctx t i tr") auto
  from getStream_index_faithful[OF g assms(2,3)] getStream_grows[OF g] show ?thesis by simp
next
  case (WaitForCurrentStreams ts)
  obtain r1 c1 t1 where g: "reserveStreams ctx ts tr = (r1, c1, t1)" by (metis prod_cases3)
  have "ctx' = c1" using assms(1) WaitForCurrentStreams g
    by (cases r1) (auto simp: waitForCurrentStreams_def)
  with reserveStreams_index_faithful[OF g assms(2,3)] reserveStreams_grows[OF g]
  show ?thesis by simp
next
  case GetReservedStreams
  with assms show ?thesis by simp
next
  case Devices
  with assms show ?thesis by simp
qed

lemma calls_index_faithful:
  "calls it cs (ctx, tr) = (ctx', tr') \<Longrightarrow>
   \<forall>h d k x. streamCreator ctx h d k = Some x \<longrightarrow> device_index x = k \<Longrightarrow>
   \<forall>k x. streams ctx k = Some x \<longrightarrow> device_index x = k \<Longrightarrow>
   (\<forall>k x. streams ctx' k = Some x \<longrightarrow> device_index x = k) \<and>
   streamCreator ctx' = streamCreator ctx"
proof (induction cs arbitrary: ctx tr)
  case Nil
  then show ?case by (simp add: calls_def)
next
  case (Cons c cs)
  obtain c1 t1 where g: "call it c (ctx, tr) = (c1, t1)" by (cases "call it c (ctx, tr)")
  have r: "calls it cs (c1, t1) = (ctx', tr')" using Cons.prems(1) g by (simp add: calls_def)
  from call_index_faithful[OF g Cons.prems(2,3)]
  have 1: "\<forall>k x. streams c1 k = Some x \<longrightarrow> device_index x = k" "streamCreator c1 = streamCreator ctx"
    by simp_all
  from Cons.IH[OF r] 1 Cons.prems(2) show ?case by simp
qed

lemma getStream_distinct_handles:
  assumes f: "\<forall>h d k x. creator h d k = Some x \<longrightarrow> device_index x = k"
    and c0: "calls it cs0 (createLazyStreamContext creator provider, tr0) = (ctx, tr)"
    and g1: "getStream ctx t i tr = (Inr (Some s1), ctx1, tr1)"
    and c1: "calls it cs (ctx1, tr1) = (ctx2, tr2)"
    and g2: "getStream ctx2 t' j tr2 = (Inr (Some s2), ctx3, tr3)"
    and ne: "i \<noteq> j"
  shows "s1 \<noteq> s2"
proof -
  let ?c0 = "createLazyStreamContext creator provider"
  have f0: "\<forall>h d k x. streamCreator ?c0 h d k = Some x \<longrightarrow> device_index x = k"
    using f by (simp add: createLazyStreamContext_def)
  have e0: "\<forall>k x. streams ?c0 k = Some x \<longrightarrow> device_index x = k"
    by (simp add: createLazyStreamContext_def)
  from calls_index_faithful[OF c0 f0 e0]
  have inv: "\<forall>k x. streams ctx k = Some x \<longrightarrow> device_index x = k"
    and fc: "\<forall>h d k x. streamCreator ctx h d k = Some x \<longrightarrow> device_index x = k"
    using f0 by simp_all
  have inv1: "\<forall>k x. streams ctx1 k = Some x \<longrightarrow> device_index x = k"
    by (rule getStream_index_faithful[OF g1 fc inv])
  have f1: "\<forall>h d k x. streamCreator ctx1 h d k = Some x \<longrightarrow> device_index x = k"
    using fc getStream_grows[OF g1] by simp
  from calls_index_faithful[OF c1 f1 inv1]
  have inv2: "\<forall>k x. streams ctx2 k = Some x \<longrightarrow> device_index x = k"
    and f2: "\<forall>h d k x. streamCreator ctx2 h d k = Some x \<longrightarrow> device_index x = k"
    using f1 by simp_all
  have inv3: "\<forall>k x. streams ctx3 k = Some x \<longrightarrow> device_index x = k"
    by (rule getStream_index_faithful[OF g2 f2 inv2])
  from getStream_Inr_cached[OF g1] have "streams ctx1 i = Some s1" by simp
  with inv1 have 1: "device_index s1 = i" by blast
  from getStream_Inr_cached[OF g2] have "streams ctx3 j = Some s2" by simp
  with inv3 have 2: "device_index s2 = j" by blast
  from 1 2 ne show ?thesis by auto
qed

text \<open>
  Claim C3, as the code has it. On a miss for which the creator returns a stream, the
  call stores the stream under the index, logs the one creator call and returns the
  stream. Once a call for an index has returned, then after any further calls on the
  context every call for that index, under any device type, returns the identical handle
  and changes neither context nor trace. Two calls for different indices, with any calls
  before and between them, return distinct handles when the context started empty and the
  creator hands out, for every index, a stream of that device index.
\<close>

theorem getStream_idempotent_per_index:
  "(streams ctx i = None \<and> streamCreator ctx tr t i = Some s \<longrightarrow>
      getStream ctx t i tr =
        (Inr (Some s), ctx\<lparr>streams := (streams ctx)(i \<mapsto> s)\<rparr>, tr @ [StreamCreatorCall t i])) \<and>
   (getStream ctx t i tr = (Inr r, ctx1, tr1) \<and>
    calls iteration cs (ctx1, tr1) = (ctx2, tr2) \<longrightarrow>
      (\<exists>s'. r = Some s' \<and> streams ctx2 i = Some s' \<and>
         getStream ctx2 t' i tr2 = (Inr (Some s'), ctx2, tr2))) \<and>
   ((\<forall>h d k x. creator h d k = Some x \<longrightarrow> device_index x = k) \<and>
    calls iteration cs0 (createLazyStreamContext creator provider, tr0) = (ctx, tr) \<and>
    getStream ctx t i tr = (Inr (Some s1), ctx1, tr1) \<and>
    calls iteration cs (ctx1, tr1) = (ctx2, tr2) \<and>
    getStream ctx2 t' j tr2 = (Inr (Some s2), ctx3, tr3) \<and> i \<noteq> j \<longrightarrow>
      s1 \<noteq> s2)"
proof (intro conjI impI)
  assume "streams ctx i = None \<and> streamCreator ctx tr t i = Some s"
  then show "getStream ctx t i tr =
        (Inr (Some s), ctx\<lparr>streams := (streams ctx)(i \<mapsto> s)\<rparr>, tr @ [StreamCreatorCall t i])"
    by (simp add: getStream_miss_Some)
next
  assume a: "getStream ctx t i tr = (Inr r, ctx1, tr1) \<and>
    calls iteration cs (ctx1, tr1) = (ctx2, tr2)"
  from getStream_stays_cached[OF conjunct1[OF a] conjunct2[OF a], of t']
  show "\<exists>s'. r = Some s' \<and> streams ctx2 i = Some s' \<and>
         getStream ctx2 t' i tr2 = (Inr (Some s'), ctx2, tr2)" by blast
next
  assume a: "(\<forall>h d k x. creator h d k = Some x \<longrightarrow> device_index x = k) \<and>
    calls iteration cs0 (createLazyStreamContext creator provider, tr0) = (ctx, tr) \<and>
    getStream ctx t i tr = (Inr (Some s1), ctx1, tr1) \<and>
    calls iteration cs (ctx1, tr1) = (ctx2, tr2) \<and>
    getStream ctx2 t' j tr2 = (Inr (Some s2), ctx3, tr3) \<and> i \<noteq> j"
  then show "s1 \<noteq> s2"
    by (intro getStream_distinct_handles[of creator iteration cs0 provider tr0 ctx tr t i s1 ctx1 tr1
          cs ctx2 tr2 t' j s2 ctx3 tr3]) simp_all
qed

text \<open>
  Claim C3 as stated fails in its last part: the class stores whatever the creator
  returns, so with a creator that always returns one stream the calls for indices 0 and 1
  return the same handle.
\<close>

theorem getStream_distinct_counterexample:
  "fst (getStream
     (createLazyStreamContext
        (\<lambda>tr t i. Some \<lparr>device_type = CUDA, device_index = 0, stream_id = 7\<rparr>) (\<lambda>t i. None))
     CUDA 0 []) =
   Inr (Some \<lparr>device_type = CUDA, device_index = 0, stream_id = 7\<rparr>) \<and>
   fst (getStream
     (fst (snd (getStream
        (createLazyStreamContext
           (\<lambda>tr t i. Some \<lparr>device_type = CUDA, device_index = 0, stream_id = 7\<rparr>) (\<lambda>t i. None))
        CUDA 0 [])))
     CUDA 1 [StreamCreatorCall CUDA 0]) =
   Inr (Some \<lparr>device_type = CUDA, device_index = 0, stream_id = 7\<rparr>)"
  by (simp add: getStream_def createLazyStreamContext_def Let_def)

text \<open>
  Claim C9. The cache is keyed by the device index alone. A \<open>getStream\<close> for an index
  that is cached, or for which the creator has a stream, returns. Once \<open>getStream\<close> has
  returned for index \<open>i\<close> under any device type, what it returned is a stream, that
  stream is the entry of the map under \<open>i\<close>, and it stays the entry through any further
  calls on the context, throwing ones included and in whatever order the map is visited:
  a later \<open>getStream\<close> for \<open>i\<close> under any device type returns that same stream
  and leaves the context and the trace as they were, so the creator is not invoked.
\<close>

theorem getStream_cache_keyed_by_index:
  "(streams ctx i \<noteq> None \<or> streamCreator ctx tr typeA i \<noteq> None \<longrightarrow>
      (\<exists>r ctx1 tr1. getStream ctx typeA i tr = (Inr r, ctx1, tr1))) \<and>
   (getStream ctx typeA i tr = (Inr r, ctx1, tr1) \<and>
    calls iteration cs (ctx1, tr1) = (ctx2, tr2) \<longrightarrow>
      (\<exists>s. r = Some s \<and> streams ctx1 i = Some s \<and> streams ctx2 i = Some s \<and>
         getStream ctx2 typeB i tr2 = (Inr (Some s), ctx2, tr2)))"
proof (intro conjI impI)
  assume "streams ctx i \<noteq> None \<or> streamCreator ctx tr typeA i \<noteq> None"
  then show "\<exists>r ctx1 tr1. getStream ctx typeA i tr = (Inr r, ctx1, tr1)"
    by (rule getStream_returns)
next
  assume a: "getStream ctx typeA i tr = (Inr r, ctx1, tr1) \<and>
    calls iteration cs (ctx1, tr1) = (ctx2, tr2)"
  show "\<exists>s. r = Some s \<and> streams ctx1 i = Some s \<and> streams ctx2 i = Some s \<and>
         getStream ctx2 typeB i tr2 = (Inr (Some s), ctx2, tr2)"
    by (rule getStream_stays_cached[OF conjunct1[OF a] conjunct2[OF a]])
qed

theorem getStream_cache_keyed_by_index_witness:
  "getStream
     (createLazyStreamContext
        (\<lambda>tr t i. if t = CUDA
           then Some \<lparr>device_type = CUDA, device_index = i, stream_id = int (length tr)\<rparr>
           else None)
        (\<lambda>t i. None))
     CUDA 0 [] =
   (Inr (Some \<lparr>device_type = CUDA, device_index = 0, stream_id = 0\<rparr>),
    \<lparr>streams = [0 \<mapsto> \<lparr>device_type = CUDA, device_index = 0, stream_id = 0\<rparr>],
     streamCreator = (\<lambda>tr t i. if t = CUDA
           then Some \<lparr>device_type = CUDA, device_index = i, stream_id = int (length tr)\<rparr>
           else None),
     currentStreamProvider = (\<lambda>t i. None)\<rparr>,
    [StreamCreatorCall CUDA 0]) \<and>
   calls (\<lambda>m. List.map_filter (\<lambda>k. map_option (Pair k) (m k)) [1, 2, 0])
     [GetStream CUDA 1, GetStream CPU 7,
      WaitForCurrentStreams
        [\<lparr>device = \<lparr>type = CUDA, index = 2\<rparr>, sizes = [2], strides = [1], storage_offset = 0,
          dtype = kByte, storage = [1, 2]\<rparr>],
      Devices]
     (\<lparr>streams = [0 \<mapsto> \<lparr>device_type = CUDA, device_index = 0, stream_id = 0\<rparr>],
       streamCreator = (\<lambda>tr t i. if t = CUDA
           then Some \<lparr>device_type = CUDA, device_index = i, stream_id = int (length tr)\<rparr>
           else None),
       currentStreamProvider = (\<lambda>t i. None)\<rparr>,
      [StreamCreatorCall CUDA 0]) =
   (\<lparr>streams = [0 \<mapsto> \<lparr>device_type = CUDA, device_index = 0, stream_id = 0\<rparr>,
                1 \<mapsto> \<lparr>device_type = CUDA, device_index = 1, stream_id = 1\<rparr>,
                2 \<mapsto> \<lparr>device_type = CUDA, device_index = 2, stream_id = 3\<rparr>],
     streamCreator = (\<lambda>tr t i. if t = CUDA
           then Some \<lparr>device_type = CUDA, device_index = i, stream_id = int (length tr)\<rparr>
           else None),
     currentStreamProvider = (\<lambda>t i. None)\<rparr>,
    [StreamCreatorCall CUDA 0, StreamCreatorCall CUDA 1, StreamCreatorCall CPU 7,
     StreamCreatorCall CUDA 2]) \<and>
   getStream
     \<lparr>streams = [0 \<mapsto> \<lparr>device_type = CUDA, device_index = 0, stream_id = 0\<rparr>,
                 1 \<mapsto> \<lparr>device_type = CUDA, device_index = 1, stream_id = 1\<rparr>,
                 2 \<mapsto> \<lparr>device_type = CUDA, device_index = 2, stream_id = 3\<rparr>],
      streamCreator = (\<lambda>tr t i. if t = CUDA
           then Some \<lparr>device_type = CUDA, device_index = i, stream_id = int (length tr)\<rparr>
           else None),
      currentStreamProvider = (\<lambda>t i. None)\<rparr>
     CPU 0
     [StreamCreatorCall CUDA 0, StreamCreatorCall CUDA 1, StreamCreatorCall CPU 7,
      StreamCreatorCall CUDA 2] =
   (Inr (Some \<lparr>device_type = CUDA, device_index = 0, stream_id = 0\<rparr>),
    \<lparr>streams = [0 \<mapsto> \<lparr>device_type = CUDA, device_index = 0, stream_id = 0\<rparr>,
                1 \<mapsto> \<lparr>device_type = CUDA, device_index = 1, stream_id = 1\<rparr>,
                2 \<mapsto> \<lparr>device_type = CUDA, device_index = 2, stream_id = 3\<rparr>],
     streamCreator = (\<lambda>tr t i. if t = CUDA
           then Some \<lparr>device_type = CUDA, device_index = i, stream_id = int (length tr)\<rparr>
           else None),
     currentStreamProvider = (\<lambda>t i. None)\<rparr>,
    [StreamCreatorCall CUDA 0, StreamCreatorCall CUDA 1, StreamCreatorCall CPU 7,
     StreamCreatorCall CUDA 2])"
proof -
  let ?cr = "\<lambda>(tr :: Action list) t (i :: DeviceIndex). if t = CUDA
           then Some \<lparr>device_type = CUDA, device_index = i, stream_id = int (length tr)\<rparr>
           else None"
  let ?pr = "\<lambda>(t :: DeviceType) (i :: DeviceIndex). None :: Stream option"
  let ?it = "\<lambda>m :: DeviceIndex \<rightharpoonup> Stream.
    List.map_filter (\<lambda>k. map_option (Pair k) (m k)) [1, 2, 0]"
  let ?s0 = "\<lparr>device_type = CUDA, device_index = 0, stream_id = 0\<rparr>"
  let ?s1 = "\<lparr>device_type = CUDA, device_index = 1, stream_id = 1\<rparr>"
  let ?s2 = "\<lparr>device_type = CUDA, device_index = 2, stream_id = 3\<rparr>"
  let ?c0 = "createLazyStreamContext ?cr ?pr"
  let ?c1 = "\<lparr>streams = [0 \<mapsto> ?s0], streamCreator = ?cr, currentStreamProvider = ?pr\<rparr>"
  let ?c2 = "\<lparr>streams = [0 \<mapsto> ?s0, 1 \<mapsto> ?s1, 2 \<mapsto> ?s2], streamCreator = ?cr,
    currentStreamProvider = ?pr\<rparr>"
  let ?t1 = "[StreamCreatorCall CUDA 0]"
  let ?t2 = "[StreamCreatorCall CUDA 0, StreamCreatorCall CUDA 1, StreamCreatorCall CPU 7,
     StreamCreatorCall CUDA 2]"
  let ?cs = "[GetStream CUDA 1, GetStream CPU 7,
      WaitForCurrentStreams
        [\<lparr>device = \<lparr>type = CUDA, index = 2\<rparr>, sizes = [2], strides = [1], storage_offset = 0,
          dtype = kByte, storage = [1, 2 :: byte]\<rparr>],
      Devices]"
  have g1: "getStream ?c0 CUDA 0 [] = (Inr (Some ?s0), ?c1, ?t1)"
    by (simp add: getStream_def createLazyStreamContext_def Let_def)
  have c: "calls ?it ?cs (?c1, ?t1) = (?c2, ?t2)"
    by (simp add: calls_def getStream_def waitForCurrentStreams_def Let_def map_filter_simps)
  from getStream_cache_keyed_by_index[THEN conjunct2, rule_format, OF conjI[OF g1 c], of CPU]
  have "getStream ?c2 CPU 0 ?t2 = (Inr (Some ?s0), ?c2, ?t2)" by simp
  with g1 c show ?thesis by (intro conjI)
qed

theorem getStream_idempotent_per_index_witness:
  "getStream
     (createLazyStreamContext
        (\<lambda>tr t i. if t = CUDA
           then Some \<lparr>device_type = CUDA, device_index = i, stream_id = int (length tr)\<rparr>
           else None)
        (\<lambda>t i. None))
     CUDA 0 [] =
   (Inr (Some \<lparr>device_type = CUDA, device_index = 0, stream_id = 0\<rparr>),
    \<lparr>streams = [0 \<mapsto> \<lparr>device_type = CUDA, device_index = 0, stream_id = 0\<rparr>],
     streamCreator = (\<lambda>tr t i. if t = CUDA
           then Some \<lparr>device_type = CUDA, device_index = i, stream_id = int (length tr)\<rparr>
           else None),
     currentStreamProvider = (\<lambda>t i. None)\<rparr>,
    [StreamCreatorCall CUDA 0]) \<and>
   calls (\<lambda>m. List.map_filter (\<lambda>k. map_option (Pair k) (m k)) [1, 2, 0])
     [GetStream CPU 7, GetReservedStreams]
     (\<lparr>streams = [0 \<mapsto> \<lparr>device_type = CUDA, device_index = 0, stream_id = 0\<rparr>],
       streamCreator = (\<lambda>tr t i. if t = CUDA
           then Some \<lparr>device_type = CUDA, device_index = i, stream_id = int (length tr)\<rparr>
           else None),
       currentStreamProvider = (\<lambda>t i. None)\<rparr>,
      [StreamCreatorCall CUDA 0]) =
   (\<lparr>streams = [0 \<mapsto> \<lparr>device_type = CUDA, device_index = 0, stream_id = 0\<rparr>],
     streamCreator = (\<lambda>tr t i. if t = CUDA
           then Some \<lparr>device_type = CUDA, device_index = i, stream_id = int (length tr)\<rparr>
           else None),
     currentStreamProvider = (\<lambda>t i. None)\<rparr>,
    [StreamCreatorCall CUDA 0, StreamCreatorCall CPU 7]) \<and>
   getStream
     \<lparr>streams = [0 \<mapsto> \<lparr>device_type = CUDA, device_index = 0, stream_id = 0\<rparr>],
      streamCreator = (\<lambda>tr t i. if t = CUDA
           then Some \<lparr>device_type = CUDA, device_index = i, stream_id = int (length tr)\<rparr>
           else None),
      currentStreamProvider = (\<lambda>t i. None)\<rparr>
     CUDA 0 [StreamCreatorCall CUDA 0, StreamCreatorCall CPU 7] =
   (Inr (Some \<lparr>device_type = CUDA, device_index = 0, stream_id = 0\<rparr>),
    \<lparr>streams = [0 \<mapsto> \<lparr>device_type = CUDA, device_index = 0, stream_id = 0\<rparr>],
     streamCreator = (\<lambda>tr t i. if t = CUDA
           then Some \<lparr>device_type = CUDA, device_index = i, stream_id = int (length tr)\<rparr>
           else None),
     currentStreamProvider = (\<lambda>t i. None)\<rparr>,
    [StreamCreatorCall CUDA 0, StreamCreatorCall CPU 7]) \<and>
   fst (getStream
     \<lparr>streams = [0 \<mapsto> \<lparr>device_type = CUDA, device_index = 0, stream_id = 0\<rparr>],
      streamCreator = (\<lambda>tr t i. if t = CUDA
           then Some \<lparr>device_type = CUDA, device_index = i, stream_id = int (length tr)\<rparr>
           else None),
      currentStreamProvider = (\<lambda>t i. None)\<rparr>
     CUDA 1 [StreamCreatorCall CUDA 0, StreamCreatorCall CPU 7]) =
   Inr (Some \<lparr>device_type = CUDA, device_index = 1, stream_id = 2\<rparr>) \<and>
   \<lparr>device_type = CUDA, device_index = 0, stream_id = 0\<rparr> \<noteq>
   \<lparr>device_type = CUDA, device_index = 1, stream_id = 2\<rparr>"
proof -
  let ?cr = "\<lambda>(tr :: Action list) t (i :: DeviceIndex). if t = CUDA
           then Some \<lparr>device_type = CUDA, device_index = i, stream_id = int (length tr)\<rparr>
           else None"
  let ?pr = "\<lambda>(t :: DeviceType) (i :: DeviceIndex). None :: Stream option"
  let ?it = "\<lambda>m :: DeviceIndex \<rightharpoonup> Stream.
    List.map_filter (\<lambda>k. map_option (Pair k) (m k)) [1, 2, 0]"
  let ?s0 = "\<lparr>device_type = CUDA, device_index = 0, stream_id = 0\<rparr>"
  let ?s1 = "\<lparr>device_type = CUDA, device_index = 1, stream_id = 2\<rparr>"
  let ?c0 = "createLazyStreamContext ?cr ?pr"
  let ?c1 = "\<lparr>streams = [0 \<mapsto> ?s0], streamCreator = ?cr, currentStreamProvider = ?pr\<rparr>"
  let ?c2 = "\<lparr>streams = [0 \<mapsto> ?s0, 1 \<mapsto> ?s1], streamCreator = ?cr,
    currentStreamProvider = ?pr\<rparr>"
  let ?t1 = "[StreamCreatorCall CUDA 0]"
  let ?t1' = "[StreamCreatorCall CUDA 0, StreamCreatorCall CPU 7]"
  let ?t2 = "[StreamCreatorCall CUDA 0, StreamCreatorCall CPU 7, StreamCreatorCall CUDA 1]"
  let ?cs = "[GetStream CPU 7, GetReservedStreams]"
  have miss: "streams ?c0 0 = None \<and> streamCreator ?c0 [] CUDA 0 = Some ?s0"
    by (simp add: createLazyStreamContext_def)
  have "getStream ?c0 CUDA 0 [] =
      (Inr (Some ?s0), ?c0\<lparr>streams := (streams ?c0)(0 \<mapsto> ?s0)\<rparr>, [] @ [StreamCreatorCall CUDA 0])"
    by (rule getStream_idempotent_per_index[THEN conjunct1, rule_format, OF miss])
  then have g1: "getStream ?c0 CUDA 0 [] = (Inr (Some ?s0), ?c1, ?t1)"
    by (simp add: createLazyStreamContext_def)
  have c: "calls ?it ?cs (?c1, ?t1) = (?c1, ?t1')"
    by (simp add: calls_def getStream_def Let_def)
  from getStream_idempotent_per_index[THEN conjunct2, THEN conjunct1, rule_format,
      OF conjI[OF g1 c], of CUDA]
  have again: "getStream ?c1 CUDA 0 ?t1' = (Inr (Some ?s0), ?c1, ?t1')" by simp
  have g2: "getStream ?c1 CUDA 1 ?t1' = (Inr (Some ?s1), ?c2, ?t2)"
    by (simp add: getStream_def Let_def)
  have f: "\<forall>h d k x. ?cr h d k = Some x \<longrightarrow> device_index x = k" by auto
  have c0: "calls ?it [] (?c0, []) = (?c0, [])" by (simp add: calls_def)
  have "?s0 \<noteq> ?s1"
    by (rule getStream_idempotent_per_index[where creator = ?cr and provider = ?pr
          and iteration = ?it and ?cs0.0 = "[]" and ?tr0.0 = "[]" and ctx = ?c0 and tr = "[]"
          and t = CUDA and i = 0 and ?s1.0 = ?s0 and ?ctx1.0 = ?c1 and ?tr1.0 = ?t1
          and cs = ?cs and ?ctx2.0 = ?c1 and ?tr2.0 = ?t1' and t' = CUDA and j = 1
          and ?s2.0 = ?s1 and ?ctx3.0 = ?c2 and ?tr3.0 = ?t2,
          THEN conjunct2, THEN conjunct2, rule_format])
       (intro conjI f c0 g1 c g2, simp)
  moreover from g2 have "fst (getStream ?c1 CUDA 1 ?t1') = Inr (Some ?s1)" by simp
  ultimately show ?thesis using g1 c again by (intro conjI)
qed


subsection \<open>Properties of the payload nester and the wire codec\<close>

lemma length_be_encode: "length (be_encode w n) = w"
  by (induction w arbitrary: n) auto

lemma be_decode_snoc: "be_decode (bs @ [b]) = be_decode bs * 256 + unat b"
  by (simp add: be_decode_def)

lemma unat_byte_of_nat: "unat (of_nat (n mod 256) :: byte) = n mod 256"
  by (simp add: unat_of_nat)

lemma be_decode_encode: "be_decode (be_encode w n) = n mod 256 ^ w"
proof (induction w arbitrary: n)
  case 0
  show ?case by (simp add: be_decode_def)
next
  case (Suc w)
  have "be_decode (be_encode (Suc w) n) = (n div 256) mod 256 ^ w * 256 + n mod 256"
    by (simp add: be_decode_snoc Suc.IH unat_byte_of_nat)
  also have "\<dots> = n mod 256 ^ Suc w"
    by (simp add: mod_mult2_eq mult.commute)
  finally show ?case .
qed

lemma be_decode_encode_8: "n < 2 ^ 64 \<Longrightarrow> be_decode (be_encode 8 n) = n"
  by (simp add: be_decode_encode)

text \<open>
  Claim C6. For a wrapped payload whose length fits the 8-byte field,
  \<open>readWrappedPayload\<close> applied to what \<open>writeWrappedPayload\<close> built hands the decoder of
  the values exactly the wrapped bytes and restores the original payload; with the
  identity for decoder it returns both byte sequences. The written buffer is the two
  segments followed by 8 bytes that decode to the length of the wrapped segment.
\<close>

theorem wrapped_payload_round_trip:
  assumes "length B < 2 ^ 64"
  shows "readWrappedPayload unpickle (writeWrappedPayload A B) =
           (case unpickle B of Inl e \<Rightarrow> Inl e | Inr values \<Rightarrow> Inr (A, values)) \<and>
         readWrappedPayload Inr (writeWrappedPayload A B) = Inr (A, B) \<and>
         length (writeWrappedPayload A B) = length A + length B + 8 \<and>
         take (length A + length B) (writeWrappedPayload A B) = A @ B \<and>
         be_decode (drop (length A + length B) (writeWrappedPayload A B)) = length B"
proof -
  let ?L = "be_encode 8 (length B)"
  have l: "length ?L = 8" by (simp only: length_be_encode)
  have d: "be_decode ?L = length B" by (rule be_decode_encode_8[OF assms])
  have w: "writeWrappedPayload A B = A @ B @ ?L" by (simp add: writeWrappedPayload_def)
  have len: "length (A @ B @ ?L) = length A + length B + 8" using l by simp
  have idx: "length (A @ B @ ?L) - 8 = length A + length B" using len by simp
  have dr: "drop (length A + length B) (A @ B @ ?L) = ?L" by simp
  have tk: "take (length A + length B) (A @ B @ ?L) = A @ B" by simp
  have r1: "readWrappedPayload unpickle (A @ B @ ?L) =
      (case unpickle B of Inl e \<Rightarrow> Inl e | Inr values \<Rightarrow> Inr (A, values))"
    unfolding readWrappedPayload_def Let_def idx dr tk d using len
    by (simp cong: sum.case_cong)
  have r2: "readWrappedPayload Inr (A @ B @ ?L) = Inr (A, B)"
    unfolding readWrappedPayload_def Let_def idx dr tk d using len by simp
  show ?thesis unfolding w using r1 r2 len dr tk d by simp
qed

theorem wrapped_payload_round_trip_witness:
  "readWrappedPayload Inr (writeWrappedPayload [1, 2, 3] [4, 5]) = Inr ([1, 2, 3], [4, 5 :: byte]) \<and>
   writeWrappedPayload [1, 2, 3] [4, 5] = [1, 2, 3, 4, 5, 0, 0, 0, 0, 0, 0, 0, 2 :: byte]"
proof -
  have h: "length [4, 5 :: byte] < 2 ^ 64" by simp
  have "readWrappedPayload Inr (writeWrappedPayload [1, 2, 3] [4, 5]) = Inr ([1, 2, 3], [4, 5 :: byte])"
    by (rule wrapped_payload_round_trip[OF h, THEN conjunct2, THEN conjunct1])
  moreover have "writeWrappedPayload [1, 2, 3] [4, 5] = [1, 2, 3, 4, 5, 0, 0, 0, 0, 0, 0, 0, 2 :: byte]"
    by code_simp
  ultimately show ?thesis by (rule conjI)
qed

lemma concat_upt_blocks:
  "concat (map (\<lambda>i. [b + i * p ..< b + i * p + p]) [0..<n]) = [b ..< b + n * p]"
proof (induction n)
  case 0
  show ?case by simp
next
  case (Suc n)
  have "[b ..< b + Suc n * p] = [b ..< b + n * p] @ [b + n * p ..< b + n * p + p]"
    using upt_add_eq_append[of b "b + n * p" p] by (simp add: add.commute add.left_commute)
  with Suc show ?case by simp
qed

lemma element_offsets_contiguous:
  "element_offsets (zip ns (contiguous_strides ns)) base = [base ..< base + prod_list ns]"
proof (induction ns arbitrary: base)
  case Nil
  show ?case by simp
next
  case (Cons n ns)
  have "element_offsets (zip (n # ns) (contiguous_strides (n # ns))) base =
        concat (map (\<lambda>i. [base + i * prod_list ns ..< base + i * prod_list ns + prod_list ns]) [0..<n])"
    by (simp add: Cons.IH)
  also have "\<dots> = [base ..< base + n * prod_list ns]" by (rule concat_upt_blocks)
  finally show ?case by simp
qed

lemma length_element_offsets:
  "length ss = length ns \<Longrightarrow> length (element_offsets (zip ns ss) base) = prod_list ns"
proof (induction ns arbitrary: ss base)
  case Nil
  then show ?case by simp
next
  case (Cons n ns)
  then obtain s ss' where ss: "ss = s # ss'" "length ss' = length ns" by (cases ss) auto
  have "length (element_offsets (zip (n # ns) ss) base) =
        sum_list (map (\<lambda>i. prod_list ns) [0..<n])"
    by (simp add: ss length_concat comp_def Cons.IH[OF ss(2)])
  also have "\<dots> = n * prod_list ns" by (simp add: sum_list_triv)
  finally show ?case by simp
qed

lemma length_concat_const:
  "(\<And>x. x \<in> set xs \<Longrightarrow> length (f x) = e) \<Longrightarrow> length (concat (map f xs)) = length xs * e"
  by (induction xs) auto

lemma length_concat_le:
  "(\<And>x. x \<in> set xs \<Longrightarrow> length (f x) \<le> e) \<Longrightarrow> length (concat (map f xs)) \<le> length xs * e"
proof (induction xs)
  case Nil
  show ?case by simp
next
  case (Cons x xs)
  have "length (f x) \<le> e" by (rule Cons.prems) simp
  moreover have "length (concat (map f xs)) \<le> length xs * e" by (rule Cons.IH) (simp add: Cons.prems)
  ultimately show ?case by simp
qed

lemma length_element_bytes_le: "length (element_bytes t off) \<le> element_size (dtype t)"
  by (simp add: element_bytes_def)

lemma length_element_bytes:
  "(off + 1) * element_size (dtype t) \<le> length (storage t) \<Longrightarrow>
   length (element_bytes t off) = element_size (dtype t)"
  by (auto simp: element_bytes_def min_def)

lemma length_contents:
  assumes "in_bounds t"
  shows "length (contents t) = nbytes t"
proof -
  let ?offs = "element_offsets (zip (sizes t) (strides t)) (storage_offset t)"
  have "length (contents t) = length ?offs * element_size (dtype t)"
    unfolding contents_def
    by (rule length_concat_const) (use assms in \<open>auto simp: in_bounds_def intro: length_element_bytes\<close>)
  also have "length ?offs = prod_list (sizes t)"
    by (rule length_element_offsets) (use assms in \<open>simp add: in_bounds_def\<close>)
  finally show ?thesis by (simp add: nbytes_def numel_def mult.commute)
qed

lemma chunks_concat:
  "length xs = n * e \<Longrightarrow> concat (map (\<lambda>off. take e (drop (off * e) xs)) [0..<n]) = xs"
proof (induction n arbitrary: xs rule: nat.induct)
  case zero
  then show ?case by simp
next
  case (Suc n)
  have "concat (map (\<lambda>off. take e (drop (off * e) xs)) [0..<Suc n]) =
        concat (map (\<lambda>off. take e (drop (off * e) xs)) [0..<n]) @ take e (drop (n * e) xs)"
    by simp
  also have "concat (map (\<lambda>off. take e (drop (off * e) xs)) [0..<n]) =
        concat (map (\<lambda>off. take e (drop (off * e) (take (n * e) xs))) [0..<n])"
  proof -
    have "take e (drop (off * e) (take (n * e) xs)) = take e (drop (off * e) xs)" if "off < n" for off
    proof -
      have "off * e + e \<le> n * e" using that
        by (metis Suc_leI mult_Suc mult_le_mono1 add.commute)
      then show ?thesis by (simp add: drop_take min_def)
    qed
    then show ?thesis by (intro arg_cong[where f=concat] map_cong) auto
  qed
  also have "\<dots> = take (n * e) xs"
    by (rule Suc.IH) (use Suc.prems in simp)
  also have "take e (drop (n * e) xs) = drop (n * e) xs"
    using Suc.prems by simp
  finally show ?case by simp
qed

lemma contents_clone:
  assumes "in_bounds t"
  shows "contents (clone t) = contents t"
proof -
  have len: "length (contents t) = prod_list (sizes t) * element_size (dtype t)"
    using length_contents[OF assms] by (simp add: nbytes_def numel_def mult.commute)
  have "contents (clone t) =
        concat (map (\<lambda>off. take (element_size (dtype t)) (drop (off * element_size (dtype t)) (contents t)))
          [0..<prod_list (sizes t)])"
    unfolding contents_def[of "clone t"]
    by (simp add: clone_def element_offsets_contiguous element_bytes_def[abs_def])
  also have "\<dots> = contents t" by (rule chunks_concat[OF len])
  finally show ?thesis .
qed

lemma length_contents_le:
  assumes "length (strides t) = length (sizes t)"
  shows "length (contents t) \<le> nbytes t"
proof -
  let ?offs = "element_offsets (zip (sizes t) (strides t)) (storage_offset t)"
  have "length (contents t) \<le> length ?offs * element_size (dtype t)"
    unfolding contents_def by (rule length_concat_le) (rule length_element_bytes_le)
  also have "length ?offs = prod_list (sizes t)"
    by (rule length_element_offsets[OF assms])
  finally show ?thesis by (simp add: nbytes_def numel_def mult.commute)
qed

lemma clone_not_worthRecopying:
  assumes "length (strides t) = length (sizes t)"
  shows "\<not> worthRecopying k (clone t)"
proof
  assume w: "worthRecopying k (clone t)"
  have s: "length (storage (clone t)) = length (contents t)" by (simp add: clone_def)
  have n: "nbytes (clone t) = nbytes t" by (simp add: clone_def nbytes_def numel_def)
  from w have "2 * nbytes t \<le> length (contents t)" and "length (contents t) - nbytes t > k"
    by (simp_all add: worthRecopying_def s n)
  with length_contents_le[OF assms] show False by simp
qed

lemma cloneSparseTensors_idem:
  assumes "\<forall>t\<in>set ts. length (strides t) = length (sizes t)"
  shows "cloneSparseTensors k (cloneSparseTensors k ts) = cloneSparseTensors k ts"
  using assms by (induction ts) (simp_all add: cloneSparseTensors_def clone_not_worthRecopying)

lemma materialize_describe: "materialize (describe t) (storage t) = t"
  by (simp add: materialize_def describe_def)

lemma readTensors_describe:
  "readTensors (map describe ts) (concat (map storage ts) @ extra) = ts"
proof (induction ts)
  case Nil
  show ?case by simp
next
  case (Cons t ts)
  have n: "meta_nbytes (describe t) = length (storage t)" by (simp add: describe_def)
  show ?case by (simp add: n materialize_describe Cons.IH)
qed

lemma sum_meta_nbytes:
  "sum_list (map meta_nbytes (map describe ts)) = length (concat (map storage ts))"
  by (induction ts) (simp_all add: describe_def)

lemma wireDeserialize_frame:
  assumes P: "length P < 2 ^ 64" and M: "length M < 2 ^ 64"
    and n: "n \<le> length S"
  shows "wireDeserialize unpickle
           (be_encode 8 (length P) @ be_encode 8 (length M) @ P @ M @ take n S) =
         (case unpickle M of
            None \<Rightarrow> Inl FormatError
          | Some table \<Rightarrow>
              if sum_list (map meta_nbytes table) > n then Inl FormatError
              else Inr (P, readTensors table (take n S)))"
proof -
  let ?H1 = "be_encode 8 (length P)" and ?H2 = "be_encode 8 (length M)"
  let ?W = "?H1 @ ?H2 @ P @ M @ take n S"
  have l1: "length ?H1 = 8" and l2: "length ?H2 = 8" by (simp_all only: length_be_encode)
  have h1: "be_decode (take 8 ?W) = length P"
    using l1 be_decode_encode_8[OF P] by simp
  have h2: "be_decode (take 8 (drop 8 ?W)) = length M"
    using l1 l2 be_decode_encode_8[OF M] by simp
  have len: "length ?W = 16 + length P + length M + n"
    using l1 l2 n by simp
  have pl: "take (length P) (drop 16 ?W) = P"
    using l1 l2 by simp
  have ml: "take (length M) (drop (16 + length P) ?W) = M"
    using l1 l2 by simp
  have rs: "drop (16 + length P + length M) ?W = take n S"
    using l1 l2 by simp
  have lr: "length (take n S) = n" using n by simp
  show ?thesis
    unfolding wireDeserialize_def Let_def h1 h2 pl ml rs lr len
    by (simp split: option.splits)
qed

lemma cloneSparseTensors_keeps:
  "length (cloneSparseTensors k ts) = length ts \<and>
   map device (cloneSparseTensors k ts) = map device ts \<and>
   map sizes (cloneSparseTensors k ts) = map sizes ts \<and>
   map dtype (cloneSparseTensors k ts) = map dtype ts"
  by (simp add: cloneSparseTensors_def clone_def)

lemma cloneSparseTensors_contents:
  assumes "\<forall>t\<in>set ts. in_bounds t"
  shows "map contents (cloneSparseTensors k ts) = map contents ts"
  using assms by (simp add: cloneSparseTensors_def contents_clone)

lemma wireSerialize_round_trip:
  assumes "length payload < 2 ^ 64"
    and "length (pickle (map describe (cloneSparseTensors k tensors))) < 2 ^ 64"
    and "unpickle (pickle (map describe (cloneSparseTensors k tensors))) =
           Some (map describe (cloneSparseTensors k tensors))"
  shows "wireDeserialize unpickle (wireSerialize pickle k payload tensors) =
           Inr (payload, cloneSparseTensors k tensors)"
proof -
  let ?dense = "cloneSparseTensors k tensors"
  let ?M = "pickle (map describe ?dense)"
  let ?S = "concat (map storage ?dense)"
  have "wireDeserialize unpickle
          (be_encode 8 (length payload) @ be_encode 8 (length ?M) @ payload @ ?M @ take (length ?S) ?S) =
        (case unpickle ?M of
            None \<Rightarrow> Inl FormatError
          | Some table \<Rightarrow>
              if sum_list (map meta_nbytes table) > length ?S then Inl FormatError
              else Inr (payload, readTensors table (take (length ?S) ?S)))"
    by (rule wireDeserialize_frame[OF assms(1,2)]) simp
  also have "\<dots> = Inr (payload, ?dense)"
    using readTensors_describe[of ?dense "[]"]
    by (simp add: assms(3) sum_meta_nbytes del: map_map)
  finally show ?thesis by (simp add: wireSerialize_def Let_def)
qed

text \<open>
  Claim C1. With header lengths that fit their 8-byte fields and a table decoder that
  gives back the table the encoder was given, decoding an encoded buffer returns the
  payload and the densified tensor list: same count and order, and each tensor with its
  shape, element type and storage bytes. The empty payload and the empty list are
  included. The densified list has the shapes and element types of the input, and for
  tensors that lie inside their storage also the contents, so the result is value-equal
  to the input whether or not a tensor was densified. Densifying such a list a second
  time changes nothing, so a caller that passes an already densified list gets exactly
  that list back.
\<close>

theorem wire_round_trip:
  assumes "length payload < 2 ^ 64"
    and "length (pickle (map describe (cloneSparseTensors k tensors))) < 2 ^ 64"
    and "unpickle (pickle (map describe (cloneSparseTensors k tensors))) =
           Some (map describe (cloneSparseTensors k tensors))"
  shows "wireDeserialize unpickle (wireSerialize pickle k payload tensors) =
           Inr (payload, cloneSparseTensors k tensors) \<and>
         length (cloneSparseTensors k tensors) = length tensors \<and>
         map sizes (cloneSparseTensors k tensors) = map sizes tensors \<and>
         map dtype (cloneSparseTensors k tensors) = map dtype tensors \<and>
         ((\<forall>t\<in>set tensors. in_bounds t) \<longrightarrow>
            map contents (cloneSparseTensors k tensors) = map contents tensors \<and>
            cloneSparseTensors k (cloneSparseTensors k tensors) = cloneSparseTensors k tensors)"
proof -
  have "wireDeserialize unpickle (wireSerialize pickle k payload tensors) =
           Inr (payload, cloneSparseTensors k tensors)"
    using assms by (rule wireSerialize_round_trip)
  moreover have "(\<forall>t\<in>set tensors. in_bounds t) \<longrightarrow>
            map contents (cloneSparseTensors k tensors) = map contents tensors \<and>
            cloneSparseTensors k (cloneSparseTensors k tensors) = cloneSparseTensors k tensors"
    by (simp add: cloneSparseTensors_contents cloneSparseTensors_idem in_bounds_def)
  ultimately show ?thesis using cloneSparseTensors_keeps[of k tensors] by simp
qed

theorem wire_round_trip_witness:
  "wireDeserialize unpickleTable
     (wireSerialize pickleTable 4 [1, 2, 3]
        [\<lparr>device = \<lparr>type = CPU, index = - 1\<rparr>, sizes = [2], strides = [1],
           storage_offset = 0, dtype = kByte, storage = [10, 11, 12, 13, 14, 15, 16, 17]\<rparr>,
         \<lparr>device = \<lparr>type = CPU, index = - 1\<rparr>, sizes = [2], strides = [2],
           storage_offset = 1, dtype = kByte, storage = [20, 21, 22, 23]\<rparr>]) =
   Inr ([1, 2, 3],
        [\<lparr>device = \<lparr>type = CPU, index = - 1\<rparr>, sizes = [2], strides = [1],
           storage_offset = 0, dtype = kByte, storage = [10, 11]\<rparr>,
         \<lparr>device = \<lparr>type = CPU, index = - 1\<rparr>, sizes = [2], strides = [2],
           storage_offset = 1, dtype = kByte, storage = [20, 21, 22, 23]\<rparr>])"
proof -
  let ?ts = "[\<lparr>device = \<lparr>type = CPU, index = - 1\<rparr>, sizes = [2], strides = [1],
           storage_offset = 0, dtype = kByte, storage = [10, 11, 12, 13, 14, 15, 16, 17 :: byte]\<rparr>,
         \<lparr>device = \<lparr>type = CPU, index = - 1\<rparr>, sizes = [2], strides = [2],
           storage_offset = 1, dtype = kByte, storage = [20, 21, 22, 23]\<rparr>]"
  have c: "cloneSparseTensors 4 ?ts =
        [\<lparr>device = \<lparr>type = CPU, index = - 1\<rparr>, sizes = [2], strides = [1],
           storage_offset = 0, dtype = kByte, storage = [10, 11]\<rparr>,
         \<lparr>device = \<lparr>type = CPU, index = - 1\<rparr>, sizes = [2], strides = [2],
           storage_offset = 1, dtype = kByte, storage = [20, 21, 22, 23]\<rparr>]"
    by code_simp
  have h1: "length [1, 2, 3 :: byte] < 2 ^ 64" by simp
  have "length (pickleTable (map describe (cloneSparseTensors 4 ?ts))) = 168"
    by code_simp
  then have h2: "length (pickleTable (map describe (cloneSparseTensors 4 ?ts))) < 2 ^ 64"
    by (simp only:) simp
  have h3: "unpickleTable (pickleTable (map describe (cloneSparseTensors 4 ?ts))) =
      Some (map describe (cloneSparseTensors 4 ?ts))"
    by code_simp
  show ?thesis
    by (rule wire_round_trip[where pickle = pickleTable and unpickle = unpickleTable,
          OF h1 h2 h3, THEN conjunct1, unfolded c])
qed

lemma readTensors_sound:
  "sum_list (map meta_nbytes table) \<le> length rest \<Longrightarrow>
   map describe (readTensors table rest) = table \<and>
   concat (map storage (readTensors table rest)) = take (sum_list (map meta_nbytes table)) rest"
proof (induction table arbitrary: rest)
  case Nil
  show ?case by simp
next
  case (Cons m ms)
  have le: "meta_nbytes m \<le> length rest"
    and le': "sum_list (map meta_nbytes ms) \<le> length (drop (meta_nbytes m) rest)"
    using Cons.prems by simp_all
  have d: "describe (materialize m (take (meta_nbytes m) rest)) = m"
    using le by (simp add: describe_def materialize_def)
  have s: "storage (materialize m (take (meta_nbytes m) rest)) = take (meta_nbytes m) rest"
    by (simp add: materialize_def)
  from Cons.IH[OF le'] show ?case
    by (simp add: d s take_add)
qed

lemma wireDeserialize_sound:
  assumes "wireDeserialize unpickle data = Inr (p, ts)"
  shows "\<exists>meta extra. length data \<ge> 16 \<and>
           data = take 16 data @ p @ meta @ concat (map storage ts) @ extra \<and>
           be_decode (take 8 data) = length p \<and>
           be_decode (take 8 (drop 8 data)) = length meta \<and>
           unpickle meta = Some (map describe ts)"
proof -
  let ?pl = "be_decode (take 8 data)" and ?ml = "be_decode (take 8 (drop 8 data))"
  let ?meta = "take ?ml (drop (16 + ?pl) data)"
  let ?rest = "drop (16 + ?pl + ?ml) data"
  from assms have l16: "length data \<ge> 16"
    by (auto simp: wireDeserialize_def split: if_splits)
  from assms l16 have fit: "16 + ?pl + ?ml \<le> length data"
    by (auto simp: wireDeserialize_def Let_def split: if_splits)
  from assms l16 fit obtain table where
    u: "unpickle ?meta = Some table"
    and s: "sum_list (map meta_nbytes table) \<le> length ?rest"
    and r: "p = take ?pl (drop 16 data)" "ts = readTensors table ?rest"
    by (auto simp: wireDeserialize_def Let_def split: if_splits option.splits)
  from readTensors_sound[OF s] r(2) have
    d: "map describe ts = table"
    and c: "concat (map storage ts) = take (sum_list (map meta_nbytes table)) ?rest"
    by simp_all
  have "data = take 16 data @ drop 16 data" by simp
  also have "drop 16 data = p @ drop ?pl (drop 16 data)"
    by (simp only: r(1) append_take_drop_id)
  also have "drop ?pl (drop 16 data) = ?meta @ ?rest"
  proof -
    have "drop ?pl (drop 16 data) = drop (16 + ?pl) data" by (simp add: add.commute)
    moreover have "?rest = drop ?ml (drop (16 + ?pl) data)" by (simp add: add.commute)
    ultimately show ?thesis by (simp only: append_take_drop_id)
  qed
  also have "?rest = concat (map storage ts) @ drop (sum_list (map meta_nbytes table)) ?rest"
    by (simp only: c append_take_drop_id)
  finally have "data = take 16 data @ p @ ?meta @ concat (map storage ts) @
      drop (sum_list (map meta_nbytes table)) ?rest" by simp
  moreover have "length p = ?pl" using fit by (simp add: r(1))
  moreover have "length ?meta = ?ml" using fit by simp
  ultimately show ?thesis using l16 u d by metis
qed

lemma wireSerialize_truncated:
  assumes "length payload < 2 ^ 64"
    and "length (pickle (map describe (cloneSparseTensors k tensors))) < 2 ^ 64"
    and "unpickle (pickle (map describe (cloneSparseTensors k tensors))) =
           Some (map describe (cloneSparseTensors k tensors))"
    and n: "n < length (wireSerialize pickle k payload tensors)"
  shows "wireDeserialize unpickle (take n (wireSerialize pickle k payload tensors)) = Inl FormatError"
proof -
  let ?dense = "cloneSparseTensors k tensors"
  let ?M = "pickle (map describe ?dense)"
  let ?S = "concat (map storage ?dense)"
  let ?H1 = "be_encode 8 (length payload)" and ?H2 = "be_encode 8 (length ?M)"
  let ?W = "?H1 @ ?H2 @ payload @ ?M @ ?S"
  have W: "wireSerialize pickle k payload tensors = ?W" by (simp add: wireSerialize_def Let_def)
  have l1: "length ?H1 = 8" and l2: "length ?H2 = 8" by (simp_all only: length_be_encode)
  have lenW: "length ?W = 16 + length payload + length ?M + length ?S" using l1 l2 by simp
  from n have n': "n < 16 + length payload + length ?M + length ?S" unfolding W lenW .
  have lt: "length (take n ?W) = n" using n' lenW by simp
  consider (header) "n < 16" | (body) "16 \<le> n" "n < 16 + length payload + length ?M"
    | (storage) "16 + length payload + length ?M \<le> n" by linarith
  then show ?thesis
  proof cases
    case header
    with lt have "length (take n ?W) < 16" by (simp only:)
    then show ?thesis unfolding W wireDeserialize_def by (simp only: if_True)
  next
    case body
    have h1: "be_decode (take 8 (take n ?W)) = length payload"
      using l1 body(1) be_decode_encode_8[OF assms(1)] by (simp add: take_take min_def)
    have h2: "be_decode (take 8 (drop 8 (take n ?W))) = length ?M"
      using l1 l2 body(1) be_decode_encode_8[OF assms(2)] by (simp add: drop_take)
    show ?thesis unfolding W wireDeserialize_def Let_def h1 h2 lt using body by simp
  next
    case storage
    define r where "r = n - (16 + length payload + length ?M)"
    have r: "r < length ?S" using n' storage by (simp add: r_def)
    have tk: "take n ?W = ?H1 @ ?H2 @ payload @ ?M @ take r ?S"
      using l1 l2 storage by (simp add: r_def)
    have "wireDeserialize unpickle (take n ?W) =
        (case unpickle ?M of
            None \<Rightarrow> Inl FormatError
          | Some table \<Rightarrow>
              if sum_list (map meta_nbytes table) > r then Inl FormatError
              else Inr (payload, readTensors table (take r ?S)))"
      unfolding tk by (rule wireDeserialize_frame[OF assms(1,2)]) (use r in simp)
    also have "\<dots> = Inl FormatError"
      using r by (simp add: assms(3) sum_meta_nbytes del: map_map)
    finally show ?thesis unfolding W .
  qed
qed

text \<open>
  Claim C4. \<open>wireDeserialize\<close> fails with a FormatError on a buffer shorter than its
  header, or shorter than the header and the two lengths the header declares, or whose
  table asks for more storage bytes than remain. Every proper prefix of an encoded buffer
  fails with a FormatError. A decode that succeeds has read the payload, the table and
  the storage bytes from inside the buffer, one after the other behind the header.
\<close>

theorem wireDeserialize_rejects_malformed:
  "(length data < 16 \<or>
    length data < 16 + be_decode (take 8 data) + be_decode (take 8 (drop 8 data)) \<longrightarrow>
      wireDeserialize unpickle data = Inl FormatError) \<and>
   (unpickle (take (be_decode (take 8 (drop 8 data))) (drop (16 + be_decode (take 8 data)) data)) =
      Some table \<and>
    length data < 16 + be_decode (take 8 data) + be_decode (take 8 (drop 8 data)) +
      sum_list (map meta_nbytes table) \<longrightarrow>
      wireDeserialize unpickle data = Inl FormatError) \<and>
   (length payload < 2 ^ 64 \<and>
    length (pickle (map describe (cloneSparseTensors k tensors))) < 2 ^ 64 \<and>
    unpickle (pickle (map describe (cloneSparseTensors k tensors))) =
      Some (map describe (cloneSparseTensors k tensors)) \<and>
    n < length (wireSerialize pickle k payload tensors) \<longrightarrow>
      wireDeserialize unpickle (take n (wireSerialize pickle k payload tensors)) = Inl FormatError) \<and>
   (wireDeserialize unpickle data = Inr (p, ts) \<longrightarrow>
      (\<exists>meta extra. 16 \<le> length data \<and>
         data = take 16 data @ p @ meta @ concat (map storage ts) @ extra \<and>
         be_decode (take 8 data) = length p \<and>
         be_decode (take 8 (drop 8 data)) = length meta \<and>
         unpickle meta = Some (map describe ts)))"
proof (intro conjI impI)
  assume "length data < 16 \<or>
    length data < 16 + be_decode (take 8 data) + be_decode (take 8 (drop 8 data))"
  then show "wireDeserialize unpickle data = Inl FormatError"
    by (auto simp: wireDeserialize_def Let_def)
next
  assume a: "unpickle (take (be_decode (take 8 (drop 8 data))) (drop (16 + be_decode (take 8 data)) data)) =
      Some table \<and>
    length data < 16 + be_decode (take 8 data) + be_decode (take 8 (drop 8 data)) +
      sum_list (map meta_nbytes table)"
  then show "wireDeserialize unpickle data = Inl FormatError"
    by (auto simp: wireDeserialize_def Let_def)
next
  assume "length payload < 2 ^ 64 \<and>
    length (pickle (map describe (cloneSparseTensors k tensors))) < 2 ^ 64 \<and>
    unpickle (pickle (map describe (cloneSparseTensors k tensors))) =
      Some (map describe (cloneSparseTensors k tensors)) \<and>
    n < length (wireSerialize pickle k payload tensors)"
  then show "wireDeserialize unpickle (take n (wireSerialize pickle k payload tensors)) = Inl FormatError"
    by (intro wireSerialize_truncated) simp_all
next
  assume "wireDeserialize unpickle data = Inr (p, ts)"
  then show "\<exists>meta extra. 16 \<le> length data \<and>
         data = take 16 data @ p @ meta @ concat (map storage ts) @ extra \<and>
         be_decode (take 8 data) = length p \<and>
         be_decode (take 8 (drop 8 data)) = length meta \<and>
         unpickle meta = Some (map describe ts)"
    by (rule wireDeserialize_sound)
qed

theorem wireDeserialize_rejects_malformed_witness:
  "wireDeserialize unpickleTable
     (take 100 (wireSerialize pickleTable 4 [1, 2, 3]
        [\<lparr>device = \<lparr>type = CPU, index = - 1\<rparr>, sizes = [2], strides = [1],
           storage_offset = 0, dtype = kByte, storage = [10, 11, 12, 13, 14, 15, 16, 17]\<rparr>])) =
   Inl FormatError \<and>
   length (wireSerialize pickleTable 4 [1, 2, 3]
        [\<lparr>device = \<lparr>type = CPU, index = - 1\<rparr>, sizes = [2], strides = [1],
           storage_offset = 0, dtype = kByte, storage = [10, 11, 12, 13, 14, 15, 16, 17]\<rparr>]) = 109 \<and>
   wireDeserialize unpickleTable [1, 2, 3] = Inl FormatError"
proof -
  let ?ts = "[\<lparr>device = \<lparr>type = CPU, index = - 1\<rparr>, sizes = [2], strides = [1],
           storage_offset = 0, dtype = kByte, storage = [10, 11, 12, 13, 14, 15, 16, 17 :: byte]\<rparr>]"
  have h1: "length [1, 2, 3 :: byte] < 2 ^ 64" by simp
  have "length (pickleTable (map describe (cloneSparseTensors 4 ?ts))) = 88"
    by code_simp
  then have h2: "length (pickleTable (map describe (cloneSparseTensors 4 ?ts))) < 2 ^ 64"
    by (simp only:) simp
  have h3: "unpickleTable (pickleTable (map describe (cloneSparseTensors 4 ?ts))) =
      Some (map describe (cloneSparseTensors 4 ?ts))"
    by code_simp
  have len: "length (wireSerialize pickleTable 4 [1, 2, 3] ?ts) = 109" by code_simp
  have h4: "100 < length (wireSerialize pickleTable 4 [1, 2, 3] ?ts)"
    unfolding len by simp
  have "wireDeserialize unpickleTable (take 100 (wireSerialize pickleTable 4 [1, 2, 3] ?ts)) =
      Inl FormatError"
    by (rule wireDeserialize_rejects_malformed[where pickle = pickleTable and unpickle = unpickleTable,
          THEN conjunct2, THEN conjunct2, THEN conjunct1, rule_format])
       (intro conjI h1 h2 h3 h4)
  moreover have "wireDeserialize unpickleTable [1, 2, 3] = Inl FormatError"
    by (rule wireDeserialize_rejects_malformed[THEN conjunct1, rule_format]) simp
  ultimately show ?thesis using len by simp
qed

end
